theory Spec2Isabelle
  imports Complex_Main "HOL-Library.Multiset" "HOL-Library.Sublist" "HOL-Library.AList"
begin

section \<open>Strings\<close>

text \<open>
  An ECMAScript string is a sequence of UTF-16 code units. A code unit is modelled by its
  number, so a string is a list of integers; \<open>js\<close> embeds an ASCII literal.
\<close>

type_synonym jsstring = "int list"

definition js :: "string \<Rightarrow> jsstring" where
  "js s = map of_char s"

text \<open>
  The characters matched by \<^verbatim>\<open>\s\<close> in a regular expression and removed by
  \<^verbatim>\<open>String.prototype.trim\<close>: WhiteSpace and LineTerminator of the language
  specification (TAB, LF, VT, FF, CR, SP, NBSP, U+1680, U+2000 to U+200A, U+2028, U+2029,
  U+202F, U+205F, U+3000, U+FEFF).
\<close>

definition isWhiteSpace :: "int \<Rightarrow> bool" where
  "isWhiteSpace c \<longleftrightarrow>
     (9 \<le> c \<and> c \<le> 13) \<or> c = 32 \<or> c = 160 \<or> c = 5760 \<or> (8192 \<le> c \<and> c \<le> 8202) \<or>
     c = 8232 \<or> c = 8233 \<or> c = 8239 \<or> c = 8287 \<or> c = 12288 \<or> c = 65279"

definition trim :: "jsstring \<Rightarrow> jsstring" where
  "trim s = rev (dropWhile isWhiteSpace (rev (dropWhile isWhiteSpace s)))"

section \<open>The geocoder: normalize\<close>

text \<open>
  \<^verbatim>\<open>toLowerCase\<close> and \<^verbatim>\<open>normalize('NFD')\<close> are functions of the host platform, driven
  by the Unicode tables. They are parameters of the model.
\<close>

record platform =
  toLowerCase :: "jsstring \<Rightarrow> jsstring"
  normalizeNFD :: "jsstring \<Rightarrow> jsstring"

text \<open>
  On strings of ASCII code units lower-casing maps A to Z onto a to z and canonical
  decomposition changes nothing; \<open>asciiPlatform\<close> does that on every string, so it agrees
  with the host on ASCII input.
\<close>

definition asciiLower :: "int \<Rightarrow> int" where
  "asciiLower c = (if 65 \<le> c \<and> c \<le> 90 then c + 32 else c)"

definition asciiPlatform :: platform where
  "asciiPlatform = \<lparr> toLowerCase = map asciiLower, normalizeNFD = (\<lambda>s. s) \<rparr>"

text \<open>The class of the first replace: the combining diacritical marks U+0300 to U+036F.\<close>

definition isDiacritic :: "int \<Rightarrow> bool" where
  "isDiacritic c \<longleftrightarrow> 768 \<le> c \<and> c \<le> 879"

text \<open>The complement of \<^verbatim>\<open>/[^a-z0-9\s]/\<close>: what the second replace keeps.\<close>

definition isLowerAlnum :: "int \<Rightarrow> bool" where
  "isLowerAlnum c \<longleftrightarrow> (97 \<le> c \<and> c \<le> 122) \<or> (48 \<le> c \<and> c \<le> 57)"

definition keptChar :: "int \<Rightarrow> bool" where
  "keptChar c \<longleftrightarrow> isLowerAlnum c \<or> isWhiteSpace c"

definition normalize :: "platform \<Rightarrow> jsstring \<Rightarrow> jsstring" where
  "normalize P str =
     (if str = [] then []
      else trim (filter keptChar (filter (\<lambda>c. \<not> isDiacritic c)
                   (normalizeNFD P (toLowerCase P str)))))"

section \<open>The map: pin radius\<close>

text \<open>
  The configuration of the map module holds \<^verbatim>\<open>pinBaseRadius: 6\<close> and
  \<^verbatim>\<open>pinMaxRadius: 20\<close>. Both arguments of getPinRadius are lengths of arrays. The
  arithmetic is that of the real numbers: the source evaluates the same expression in
  double precision, with the host's \<^verbatim>\<open>Math.log\<close>.
\<close>

definition pinBaseRadius :: real where
  "pinBaseRadius = 6"

definition pinMaxRadius :: real where
  "pinMaxRadius = 20"

definition getPinRadius :: "nat \<Rightarrow> nat \<Rightarrow> real" where
  "getPinRadius cnt maxCount =
     (let normalized = ln (real cnt + 1) / ln (real maxCount + 1)
      in pinBaseRadius + normalized * (pinMaxRadius - pinBaseRadius))"

section \<open>The geocoder: parseLocation\<close>

subsection \<open>The regular expressions of the parser\<close>

text \<open>
  The patterns of parseLocation are sequences of five kinds of item: \<^verbatim>\<open>\s*\<close>, the optional
  hyphen \<^verbatim>\<open>-?\<close>, a literal word, and the anchors \<^verbatim>\<open>^\<close> and \<^verbatim>\<open>$\<close>. All of them carry the
  flags \<^verbatim>\<open>g\<close> and \<^verbatim>\<open>i\<close>.
\<close>

datatype rx = WsStar | OptHyphen | Lit jsstring | Bol | Eol

text \<open>
  Case-insensitive comparison without the \<^verbatim>\<open>u\<close> flag compares the upper-case forms, and
  never lets a character outside ASCII stand for an ASCII one. For the ASCII letters of the
  patterns that is the comparison of the ASCII upper-case forms.
\<close>

definition canonicalize :: "int \<Rightarrow> int" where
  "canonicalize c = (if 97 \<le> c \<and> c \<le> 122 then c - 32 else c)"

fun ciPrefix :: "jsstring \<Rightarrow> jsstring \<Rightarrow> bool" where
  "ciPrefix [] s = True"
| "ciPrefix (p # ps) [] = False"
| "ciPrefix (p # ps) (c # cs) = (canonicalize p = canonicalize c \<and> ciPrefix ps cs)"

fun firstSome :: "'a option list \<Rightarrow> 'a option" where
  "firstSome [] = None"
| "firstSome (Some x # xs) = Some x"
| "firstSome (None # xs) = firstSome xs"

text \<open>
  The backtracking matcher: \<open>rxMatch p atStart s\<close> matches the pattern \<open>p\<close> at the
  beginning of \<open>s\<close> and returns what is left of \<open>s\<close> after the match; \<open>atStart\<close> says
  that \<open>s\<close> begins at index 0 of the subject. The quantifiers are greedy: \<^verbatim>\<open>\s*\<close> tries
  the longest run of white space first and gives characters back one at a time, \<^verbatim>\<open>-?\<close>
  tries the hyphen first.
\<close>

fun rxMatch :: "rx list \<Rightarrow> bool \<Rightarrow> jsstring \<Rightarrow> jsstring option" where
  "rxMatch [] atStart s = Some s"
| "rxMatch (Bol # r) atStart s = (if atStart then rxMatch r atStart s else None)"
| "rxMatch (Eol # r) atStart s = (if s = [] then rxMatch r atStart s else None)"
| "rxMatch (Lit w # r) atStart s =
     (if ciPrefix w s then rxMatch r (atStart \<and> w = []) (drop (length w) s) else None)"
| "rxMatch (OptHyphen # r) atStart s =
     (case s of
        [] \<Rightarrow> rxMatch r atStart s
      | c # s' \<Rightarrow>
          if c = 45 then
            (case rxMatch r False s' of
               Some rest \<Rightarrow> Some rest
             | None \<Rightarrow> rxMatch r atStart s)
          else rxMatch r atStart s)"
| "rxMatch (WsStar # r) atStart s =
     firstSome (map (\<lambda>k. rxMatch r (atStart \<and> k = 0) (drop k s))
                    (rev [0..<Suc (length (takeWhile isWhiteSpace s))]))"

text \<open>
  \<^verbatim>\<open>str.replace(pattern, ' ')\<close> with a global pattern: the subject is scanned from the left;
  where the pattern matches, a space is put out and the scan goes on after the match;
  elsewhere the character is copied. After an empty match the scan moves on by one
  character.
\<close>

function replaceAll :: "rx list \<Rightarrow> bool \<Rightarrow> jsstring \<Rightarrow> jsstring" where
  "replaceAll p atStart s =
     (case rxMatch p atStart s of
        Some rest \<Rightarrow>
          if length rest < length s then 32 # replaceAll p False rest
          else (case s of [] \<Rightarrow> [32] | c # cs \<Rightarrow> 32 # c # replaceAll p False cs)
      | None \<Rightarrow> (case s of [] \<Rightarrow> [] | c # cs \<Rightarrow> c # replaceAll p False cs))"
  by pat_completeness auto
termination
  by (relation "measure (\<lambda>(p, atStart, s). length s)") auto

text \<open>\<^verbatim>\<open>str.replace(/\s+/g, ' ')\<close>: every run of white space becomes one space.\<close>

function collapseWhiteSpace :: "jsstring \<Rightarrow> jsstring" where
  "collapseWhiteSpace [] = []"
| "collapseWhiteSpace (c # cs) =
     (if isWhiteSpace c then 32 # collapseWhiteSpace (dropWhile isWhiteSpace cs)
      else c # collapseWhiteSpace cs)"
  by pat_completeness auto
termination
  by (relation "measure length") (auto simp: less_Suc_eq_le length_dropWhile_le)

subsection \<open>Splitting\<close>

text \<open>The delimiters of \<^verbatim>\<open>/[,\-]+/\<close>: the comma and the hyphen.\<close>

definition isDelim :: "int \<Rightarrow> bool" where
  "isDelim c \<longleftrightarrow> c = 44 \<or> c = 45"

text \<open>
  \<^verbatim>\<open>str.split(/[,\-]+/)\<close>: the fragments between the runs of delimiters. A run at the
  beginning or at the end gives an empty fragment there, and the empty string gives one
  empty fragment.
\<close>

function splitDelims :: "jsstring \<Rightarrow> jsstring list" where
  "splitDelims s =
     (let frag = takeWhile (\<lambda>c. \<not> isDelim c) s;
          rest = dropWhile (\<lambda>c. \<not> isDelim c) s
      in if rest = [] then [frag] else frag # splitDelims (dropWhile isDelim rest))"
  by pat_completeness auto
termination
proof (relation "measure length")
  fix s frag rest :: jsstring
  assume "rest = dropWhile (\<lambda>c. \<not> isDelim c) s" "rest \<noteq> []"
  then have "isDelim (hd rest)"
    using hd_dropWhile[of "\<lambda>c. \<not> isDelim c" s] by simp
  with \<open>rest \<noteq> []\<close> have "length (dropWhile isDelim rest) < length rest"
    by (cases rest) (auto simp: less_Suc_eq_le length_dropWhile_le)
  moreover have "length rest \<le> length s"
    using \<open>rest = _\<close> by (simp add: length_dropWhile_le)
  ultimately show "(dropWhile isDelim rest, s) \<in> measure length" by simp
qed simp

subsection \<open>parseLocation\<close>

definition removePatterns :: "rx list list" where
  "removePatterns =
     [ [WsStar, OptHyphen, WsStar, Lit (js ''work''), WsStar, Lit (js ''from''), WsStar,
        Lit (js ''home''), WsStar],
       [WsStar, OptHyphen, WsStar, Lit (js ''wfh''), WsStar],
       [WsStar, OptHyphen, WsStar, Lit (js ''home''), WsStar, Lit (js ''office''), WsStar],
       [WsStar, OptHyphen, WsStar, Lit (js ''office''), WsStar],
       [Bol, WsStar, Lit (js ''remote''), WsStar, OptHyphen, WsStar],
       [WsStar, OptHyphen, WsStar, Lit (js ''remote''), WsStar, Eol] ]"

record parsedLocation =
  original :: jsstring
  parts :: "jsstring list"

text \<open>
  The string that is split: the trimmed input with the patterns replaced in their order,
  white space collapsed and trimmed, or the trimmed input when that leaves nothing.
\<close>

definition stripQualifiers :: "jsstring \<Rightarrow> jsstring" where
  "stripQualifiers locationStr =
     trim (collapseWhiteSpace
       (fold (\<lambda>pattern str. replaceAll pattern True str) removePatterns (trim locationStr)))"

definition cleanLocation :: "jsstring \<Rightarrow> jsstring" where
  "cleanLocation locationStr =
     (let str = stripQualifiers locationStr
      in if str = [] then trim locationStr else str)"

definition parseLocation :: "jsstring \<Rightarrow> parsedLocation option" where
  "parseLocation locationStr =
     (if locationStr = [] then None
      else
        let str = cleanLocation locationStr;
            ps = filter (\<lambda>p. p \<noteq> []) (map trim (splitDelims str))
        in if ps = [] then None
           else Some \<lparr> original = locationStr, parts = ps \<rparr>)"

section \<open>The geocoder: gazetteer, cache and geocode\<close>

text \<open>
  The gazetteer is the document \<^verbatim>\<open>data/cities.json\<close>, which is not among the sources; it
  is a parameter of the model, in the format the project's documentation gives: a list
  \<^verbatim>\<open>countries\<close> and the lists \<^verbatim>\<open>states.US\<close>, \<^verbatim>\<open>states.CA\<close> and \<^verbatim>\<open>states.AU\<close> of entries with
  \<^verbatim>\<open>name\<close>, \<^verbatim>\<open>code\<close>, \<^verbatim>\<open>lat\<close> and \<^verbatim>\<open>lng\<close>. A list of states that the document does not have
  is read as the empty list, as \<^verbatim>\<open>data.states?.US || []\<close> does. Coordinates are numbers of
  the document; every double is a real number.
\<close>

record place =
  lat :: real
  lng :: real
  name :: jsstring

record gazetteerEntry = place +
  code :: jsstring

record gazetteer =
  countries :: "gazetteerEntry list"
  statesUS :: "gazetteerEntry list"
  statesCA :: "gazetteerEntry list"
  statesAU :: "gazetteerEntry list"

record geocodeResult = place +
  displayName :: jsstring

text \<open>
  A \<^verbatim>\<open>Map\<close> from strings is a list of pairs in insertion order; a value of the cache is a
  result or \<^verbatim>\<open>null\<close>.
\<close>

type_synonym resultMap = "(jsstring \<times> geocodeResult option) list"

text \<open>
  The state of the module: \<^verbatim>\<open>data\<close> and \<^verbatim>\<open>cache\<close>. Two more fields stand for what is around
  it. \<open>loads\<close> holds the outcomes of the attempts to fetch and read the gazetteer that
  are still to come, each the document or a failure; when none is left, an attempt fails.
  \<open>resolverRuns\<close> is not in the source: it records the cache key each time the loop over
  the parts runs, since the cache was last cleared.
\<close>

record geocoder =
  data :: "gazetteer option"
  cache :: resultMap
  loads :: "gazetteer option list"
  resolverRuns :: "jsstring list"

definition start :: "gazetteer option list \<Rightarrow> geocoder" where
  "start ls = \<lparr> data = None, cache = [], loads = ls, resolverRuns = [] \<rparr>"

definition init :: "geocoder \<Rightarrow> geocoder" where
  "init st =
     (case data st of
        Some d \<Rightarrow> st
      | None \<Rightarrow>
          (case loads st of
             [] \<Rightarrow> st
           | outcome # rest \<Rightarrow> st\<lparr> data := outcome, loads := rest \<rparr>))"

definition matchesEntry :: "platform \<Rightarrow> jsstring \<Rightarrow> gazetteerEntry \<Rightarrow> bool" where
  "matchesEntry P normalized s \<longleftrightarrow>
     normalize P (name s) = normalized \<or> toLowerCase P (code s) = normalized"

definition findUSState :: "platform \<Rightarrow> gazetteer option \<Rightarrow> jsstring \<Rightarrow> gazetteerEntry option" where
  "findUSState P dat str =
     (case dat of
        None \<Rightarrow> None
      | Some d \<Rightarrow> if str = [] then None
                  else List.find (matchesEntry P (normalize P str)) (statesUS d))"

definition findCAProvince :: "platform \<Rightarrow> gazetteer option \<Rightarrow> jsstring \<Rightarrow> gazetteerEntry option" where
  "findCAProvince P dat str =
     (case dat of
        None \<Rightarrow> None
      | Some d \<Rightarrow> if str = [] then None
                  else List.find (matchesEntry P (normalize P str)) (statesCA d))"

definition findAUState :: "platform \<Rightarrow> gazetteer option \<Rightarrow> jsstring \<Rightarrow> gazetteerEntry option" where
  "findAUState P dat str =
     (case dat of
        None \<Rightarrow> None
      | Some d \<Rightarrow> if str = [] then None
                  else List.find (matchesEntry P (normalize P str)) (statesAU d))"

definition findCountry :: "platform \<Rightarrow> gazetteer option \<Rightarrow> jsstring \<Rightarrow> gazetteerEntry option" where
  "findCountry P dat str =
     (case dat of
        None \<Rightarrow> None
      | Some d \<Rightarrow> if str = [] then None
                  else List.find (matchesEntry P (normalize P str)) (countries d))"

text \<open>The loop of geocode over the parts, with its four attempts and their \<^verbatim>\<open>break\<close>.\<close>

fun resolveParts :: "platform \<Rightarrow> gazetteer option \<Rightarrow> jsstring list \<Rightarrow> geocodeResult option" where
  "resolveParts P dat [] = None"
| "resolveParts P dat (part # rest) =
     (case findUSState P dat part of
        Some usState \<Rightarrow>
          Some \<lparr> lat = lat usState, lng = lng usState,
                 name = name usState @ js '', United States'', displayName = name usState \<rparr>
      | None \<Rightarrow>
     (case findCAProvince P dat part of
        Some caProvince \<Rightarrow>
          Some \<lparr> lat = lat caProvince, lng = lng caProvince,
                 name = name caProvince @ js '', Canada'', displayName = name caProvince \<rparr>
      | None \<Rightarrow>
     (case findAUState P dat part of
        Some auState \<Rightarrow>
          Some \<lparr> lat = lat auState, lng = lng auState,
                 name = name auState @ js '', Australia'', displayName = name auState \<rparr>
      | None \<Rightarrow>
     (case findCountry P dat part of
        Some country \<Rightarrow>
          Some \<lparr> lat = lat country, lng = lng country,
                 name = name country, displayName = name country \<rparr>
      | None \<Rightarrow> resolveParts P dat rest))))"

definition geocode :: "platform \<Rightarrow> jsstring \<Rightarrow> geocoder \<Rightarrow> geocodeResult option \<times> geocoder" where
  "geocode P locationStr st =
     (if locationStr = [] then (None, st)
      else
        let cacheKey = normalize P locationStr in
        case map_of (cache st) cacheKey of
          Some cached \<Rightarrow> (cached, st)
        | None \<Rightarrow>
            let st1 = init st in
            (case data st1 of
               None \<Rightarrow> (None, st1)
             | Some d \<Rightarrow>
                 (case parseLocation locationStr of
                    None \<Rightarrow> (None, st1)
                  | Some parsed \<Rightarrow>
                      let result = resolveParts P (Some d) (parts parsed)
                      in (result,
                          st1\<lparr> cache := AList.update cacheKey result (cache st1),
                               resolverRuns := resolverRuns st1 @ [cacheKey] \<rparr>))))"

text \<open>
  \<open>geocode\<close> above is one call from its first line to its \<^verbatim>\<open>return\<close>, with no other call
  of the module running in between. The source function is \<^verbatim>\<open>async\<close>: it runs without
  interruption up to \<^verbatim>\<open>await init()\<close>, after the look-up in the cache, and the rest of it
  runs later, on the state it finds then; other calls may begin or go on in between.
  The two parts are given here. \<open>geocodeBegin\<close> is the part before the suspension: it
  ends the call on an empty input or a hit in the cache, and otherwise calls \<^verbatim>\<open>init\<close>,
  which starts a fetch exactly when \<^verbatim>\<open>data\<close> is not set; the flag of \<open>AwaitingInit\<close> says
  whether it did. \<open>initSettle\<close> is the end of such a fetch: \<^verbatim>\<open>data\<close> is assigned when the
  document has been read, and left as it is when the attempt fails. \<open>geocodeResume\<close> is
  the part after the suspension, from \<^verbatim>\<open>if (!data)\<close> to the \<^verbatim>\<open>return\<close>, with the fetch of
  this call ended first.
\<close>

definition initSettle :: "geocoder \<Rightarrow> geocoder" where
  "initSettle st =
     (case loads st of
        [] \<Rightarrow> st
      | outcome # rest \<Rightarrow>
          (case outcome of
             None \<Rightarrow> st\<lparr> loads := rest \<rparr>
           | Some d \<Rightarrow> st\<lparr> data := Some d, loads := rest \<rparr>))"

datatype suspension = Finished "geocodeResult option" | AwaitingInit bool

definition geocodeBegin :: "platform \<Rightarrow> jsstring \<Rightarrow> geocoder \<Rightarrow> suspension" where
  "geocodeBegin P locationStr st =
     (if locationStr = [] then Finished None
      else
        let cacheKey = normalize P locationStr in
        case map_of (cache st) cacheKey of
          Some cached \<Rightarrow> Finished cached
        | None \<Rightarrow> AwaitingInit (data st = None))"

definition geocodeResume ::
  "platform \<Rightarrow> jsstring \<Rightarrow> bool \<Rightarrow> geocoder \<Rightarrow> geocodeResult option \<times> geocoder" where
  "geocodeResume P locationStr fetching st =
     (let cacheKey = normalize P locationStr;
          st1 = (if fetching then initSettle st else st)
      in case data st1 of
           None \<Rightarrow> (None, st1)
         | Some d \<Rightarrow>
             (case parseLocation locationStr of
                None \<Rightarrow> (None, st1)
              | Some parsed \<Rightarrow>
                  let result = resolveParts P (Some d) (parts parsed)
                  in (result,
                      st1\<lparr> cache := AList.update cacheKey result (cache st1),
                           resolverRuns := resolverRuns st1 @ [cacheKey] \<rparr>)))"

text \<open>\<^verbatim>\<open>[...new Set(xs)]\<close>: the first occurrence of each element, in order.\<close>

definition uniq :: "'a list \<Rightarrow> 'a list" where
  "uniq xs = rev (remdups (rev xs))"

fun batchLoop :: "platform \<Rightarrow> jsstring list \<Rightarrow> resultMap \<Rightarrow> geocoder \<Rightarrow> resultMap \<times> geocoder" where
  "batchLoop P [] results st = (results, st)"
| "batchLoop P (location # rest) results st =
     (case geocode P location st of
        (coords, st') \<Rightarrow>
          batchLoop P rest
            (case coords of
               Some r \<Rightarrow> AList.update location (Some r) results
             | None \<Rightarrow> results)
            st')"

definition geocodeBatch :: "platform \<Rightarrow> jsstring list \<Rightarrow> geocoder \<Rightarrow> resultMap \<times> geocoder" where
  "geocodeBatch P locations st =
     batchLoop P (uniq (filter (\<lambda>l. l \<noteq> []) locations)) [] (init st)"

definition clearCache :: "geocoder \<Rightarrow> geocoder" where
  "clearCache st = st\<lparr> cache := [], resolverRuns := [] \<rparr>"

text \<open>The calls of the public interface, and a run of calls from a state.\<close>

datatype call = Init | Geocode jsstring | GeocodeBatch "jsstring list" | ClearCache

fun exec :: "platform \<Rightarrow> call \<Rightarrow> geocoder \<Rightarrow> geocoder" where
  "exec P Init st = init st"
| "exec P (Geocode locationStr) st = snd (geocode P locationStr st)"
| "exec P (GeocodeBatch locations) st = snd (geocodeBatch P locations st)"
| "exec P ClearCache st = clearCache st"

definition run :: "platform \<Rightarrow> call list \<Rightarrow> geocoder \<Rightarrow> geocoder" where
  "run P calls st = fold (exec P) calls st"

text \<open>A small gazetteer in the documented format, for the evaluations.\<close>

definition sampleData :: gazetteer where
  "sampleData =
     \<lparr> countries =
         [ \<lparr> lat = 37.0902, lng = -95.7129, name = js ''United States'', code = js ''US'' \<rparr>,
           \<lparr> lat = 56.1304, lng = -106.3468, name = js ''Canada'', code = js ''CA'' \<rparr>,
           \<lparr> lat = -38.4161, lng = -63.6167, name = js ''Argentina'', code = js ''AR'' \<rparr>,
           \<lparr> lat = 61.9241, lng = 25.7482, name = js ''Finland'', code = js ''FI'' \<rparr>,
           \<lparr> lat = 55.3781, lng = -3.436, name = js ''United Kingdom'', code = js ''GB'' \<rparr> ],
       statesUS =
         [ \<lparr> lat = 36.7783, lng = -119.4179, name = js ''California'', code = js ''CA'' \<rparr>,
           \<lparr> lat = 31.9686, lng = -99.9018, name = js ''Texas'', code = js ''TX'' \<rparr>,
           \<lparr> lat = 40.4173, lng = -82.9071, name = js ''Ohio'', code = js ''OH'' \<rparr> ],
       statesCA =
         [ \<lparr> lat = 51.2538, lng = -85.3232, name = js ''Ontario'', code = js ''ON'' \<rparr> ],
       statesAU =
         [ \<lparr> lat = -31.2532, lng = 146.9211, name = js ''New South Wales'', code = js ''NSW'' \<rparr> ] \<rparr>"

subsection \<open>The tier order, in the words of the specification\<close>

text \<open>
  The specification describes the resolver as follows: for every token the tiers are
  tried in the order US states, Canadian provinces, Australian states, countries, before
  the next token is looked at, and the first match over tokens and tiers wins.
  \<open>tierResults\<close> lists the four outcomes for one token and \<open>firstMatch\<close> takes the first
  match of the whole table; they are compared with \<open>resolveParts\<close> below.
\<close>

definition stateResult :: "jsstring \<Rightarrow> gazetteerEntry \<Rightarrow> geocodeResult" where
  "stateResult country s =
     \<lparr> lat = lat s, lng = lng s, name = name s @ js '', '' @ country, displayName = name s \<rparr>"

definition countryResult :: "gazetteerEntry \<Rightarrow> geocodeResult" where
  "countryResult c = \<lparr> lat = lat c, lng = lng c, name = name c, displayName = name c \<rparr>"

definition tierResults :: "platform \<Rightarrow> gazetteer option \<Rightarrow> jsstring \<Rightarrow> geocodeResult option list" where
  "tierResults P dat token =
     [ map_option (stateResult (js ''United States'')) (findUSState P dat token),
       map_option (stateResult (js ''Canada'')) (findCAProvince P dat token),
       map_option (stateResult (js ''Australia'')) (findAUState P dat token),
       map_option countryResult (findCountry P dat token) ]"

definition firstMatch :: "platform \<Rightarrow> gazetteer option \<Rightarrow> jsstring list \<Rightarrow> geocodeResult option" where
  "firstMatch P dat tokens = firstSome (concat (map (tierResults P dat) tokens))"

subsection \<open>Invariants of the state\<close>

text \<open>
  \<open>cachedFromData\<close>: every value the cache holds is what the loop over the parts gives,
  against the gazetteer that is loaded, for some raw string with that cache key.
  \<open>runsCached\<close>: the keys for which the loop ran since the last clearing are pairwise
  different and all in the cache.
\<close>

definition cachedFromData :: "platform \<Rightarrow> geocoder \<Rightarrow> bool" where
  "cachedFromData P st \<longleftrightarrow>
     (\<forall>k v. map_of (cache st) k = Some v \<longrightarrow>
        (\<exists>d raw parsed. data st = Some d \<and> raw \<noteq> [] \<and> normalize P raw = k
           \<and> parseLocation raw = Some parsed \<and> v = resolveParts P (Some d) (parts parsed)))"

definition runsCached :: "geocoder \<Rightarrow> bool" where
  "runsCached st \<longleftrightarrow>
     distinct (resolverRuns st) \<and> (\<forall>k\<in>set (resolverRuns st). map_of (cache st) k \<noteq> None)"

text \<open>The next attempt to load the gazetteer fails.\<close>

definition nextLoadFails :: "geocoder \<Rightarrow> bool" where
  "nextLoadFails st \<longleftrightarrow> (case loads st of [] \<Rightarrow> True | outcome # rest \<Rightarrow> outcome = None)"

section \<open>Grouping employees by location\<close>



text \<open>
  An employee record after validation: \<^verbatim>\<open>location\<close> is a string, empty when the directory
  gave none. The other attributes are not looked at here.
\<close>

record employee =
  employeeId :: int
  location :: jsstring









subsection \<open>Occurrences of a phrase, for the statements about the patterns\<close>

text \<open>
  \<open>phraseAt ws s\<close>: the string \<open>s\<close> begins with the words \<open>ws\<close>, in either case, with any
  white space or none between one word and the next. \<open>containsPhrase ws s\<close>: the phrase
  stands somewhere in \<open>s\<close>.
\<close>

fun phraseAt :: "jsstring list \<Rightarrow> jsstring \<Rightarrow> bool" where
  "phraseAt [] s = True"
| "phraseAt [w] s = ciPrefix w s"
| "phraseAt (w # v # ws) s =
     (ciPrefix w s \<and> phraseAt (v # ws) (dropWhile isWhiteSpace (drop (length w) s)))"

definition containsPhrase :: "jsstring list \<Rightarrow> jsstring \<Rightarrow> bool" where
  "containsPhrase ws s = list_ex (phraseAt ws) (suffixes s)"

text \<open>A word of the patterns: lower-case ASCII letters, at least one.\<close>

definition isWord :: "jsstring \<Rightarrow> bool" where
  "isWord w \<longleftrightarrow> w \<noteq> [] \<and> list_all (\<lambda>c. 97 \<le> c \<and> c \<le> 122) w"

text \<open>The pattern of a phrase: each word followed by \<^verbatim>\<open>\s*\<close>.\<close>

definition phraseRx :: "jsstring list \<Rightarrow> rx list" where
  "phraseRx ws = concat (map (\<lambda>w. [Lit w, WsStar]) ws)"

subsection \<open>The rules, in the words of the specification\<close>

text \<open>
  The specification lists the qualifiers that are removed: four phrases, a leading
  \<^verbatim>\<open>remote\<close> and a trailing \<^verbatim>\<open>remote\<close>, each with the white space around it and an optional
  hyphen. The functions below say, without the regular expressions, where such a
  qualifier begins and what is left of the string after it; they are compared with the
  matcher on the patterns of the source.

  \<open>skipSeparator\<close>: white space, one optional hyphen, white space.
  \<open>afterPhrase ws s\<close>: what follows the words \<open>ws\<close> and the white space after each of them.
\<close>

definition skipSeparator :: "jsstring \<Rightarrow> jsstring" where
  "skipSeparator s =
     (case dropWhile isWhiteSpace s of
        [] \<Rightarrow> []
      | c # cs \<Rightarrow> if c = 45 then dropWhile isWhiteSpace cs else c # cs)"

fun afterPhrase :: "jsstring list \<Rightarrow> jsstring \<Rightarrow> jsstring" where
  "afterPhrase [] s = s"
| "afterPhrase (w # ws) s = afterPhrase ws (dropWhile isWhiteSpace (drop (length w) s))"

definition phraseMatch :: "jsstring list \<Rightarrow> jsstring \<Rightarrow> jsstring option" where
  "phraseMatch ws s =
     (let t = skipSeparator s in if phraseAt ws t then Some (afterPhrase ws t) else None)"

definition leadingMatch :: "jsstring \<Rightarrow> bool \<Rightarrow> jsstring \<Rightarrow> jsstring option" where
  "leadingMatch w atStart s =
     (let t = dropWhile isWhiteSpace s
      in if atStart \<and> ciPrefix w t then Some (skipSeparator (drop (length w) t)) else None)"

definition trailingMatch :: "jsstring \<Rightarrow> jsstring \<Rightarrow> jsstring option" where
  "trailingMatch w s =
     (let t = skipSeparator s
      in if ciPrefix w t \<and> list_all isWhiteSpace (drop (length w) t) then Some [] else None)"


section \<open>Properties of normalize\<close>

lemma dropWhile_fix: "xs = [] \<or> \<not> P (hd xs) \<Longrightarrow> dropWhile P xs = xs"
  by (cases xs) auto

lemma last_dropWhile_nonempty: "dropWhile P xs \<noteq> [] \<Longrightarrow> last (dropWhile P xs) = last xs"
  by (induction xs) (auto split: if_splits)

lemma trim_Nil: "trim [] = []"
  by (simp add: trim_def)

lemma trim_idem: "trim (trim s) = trim s"
proof -
  define u where "u = dropWhile isWhiteSpace s"
  define v where "v = dropWhile isWhiteSpace (rev u)"
  have hu: "u = [] \<or> \<not> isWhiteSpace (hd u)"
    unfolding u_def using hd_dropWhile by blast
  have hv: "v = [] \<or> \<not> isWhiteSpace (hd v)"
    unfolding v_def using hd_dropWhile by blast
  have "rev v = [] \<or> \<not> isWhiteSpace (hd (rev v))"
  proof (cases "v = []")
    case True then show ?thesis by simp
  next
    case False
    then have "last v = last (rev u)"
      unfolding v_def by (rule last_dropWhile_nonempty)
    moreover from False have "u \<noteq> []" unfolding v_def by auto
    ultimately have "hd (rev v) = hd u"
      using False by (simp add: hd_rev last_rev)
    with hu \<open>u \<noteq> []\<close> show ?thesis by simp
  qed
  then have 1: "dropWhile isWhiteSpace (rev v) = rev v" by (rule dropWhile_fix)
  from hv have 2: "dropWhile isWhiteSpace v = v" by (rule dropWhile_fix)
  have "trim s = rev v" by (simp add: trim_def u_def v_def)
  then show ?thesis by (simp add: trim_def 1 2)
qed

lemma set_trim: "set (trim s) \<subseteq> set s"
  unfolding trim_def
  by (metis set_dropWhileD set_rev subsetI)

lemma kept_not_diacritic: "keptChar c \<Longrightarrow> \<not> isDiacritic c"
  by (auto simp: keptChar_def isLowerAlnum_def isWhiteSpace_def isDiacritic_def)

lemma normalize_kept: "c \<in> set (normalize P s) \<Longrightarrow> keptChar c"
  using set_trim[of "filter keptChar (filter (\<lambda>c. \<not> isDiacritic c) (normalizeNFD P (toLowerCase P s)))"]
  by (auto simp: normalize_def split: if_splits)

lemma normalize_from_nfd:
  "s \<noteq> [] \<Longrightarrow> set (normalize P s) \<subseteq> set (normalizeNFD P (toLowerCase P s))"
  using set_trim[of "filter keptChar (filter (\<lambda>c. \<not> isDiacritic c) (normalizeNFD P (toLowerCase P s)))"]
  by (auto simp: normalize_def)

lemma trim_normalize: "trim (normalize P s) = normalize P s"
  by (cases "s = []") (simp_all add: normalize_def trim_idem trim_Nil)

lemma normalize_fixed:
  assumes "\<forall>c\<in>set s. keptChar c" "toLowerCase P s = s" "normalizeNFD P s = s" "trim s = s"
  shows "normalize P s = s"
proof (cases "s = []")
  case True then show ?thesis by (simp add: normalize_def)
next
  case False
  have "filter (\<lambda>c. \<not> isDiacritic c) s = s"
    using assms(1) by (simp add: kept_not_diacritic)
  moreover have "filter keptChar s = s" using assms(1) by simp
  ultimately show ?thesis using False assms by (simp add: normalize_def)
qed

lemma ascii_lower_fixed: "\<forall>c\<in>set t. keptChar c \<Longrightarrow> toLowerCase asciiPlatform t = t"
  by (induction t)
    (auto simp: asciiPlatform_def asciiLower_def keptChar_def isLowerAlnum_def isWhiteSpace_def)

text \<open>
  C10. Normalization is idempotent: normalizing a normalized string gives it back.

  The host's two Unicode functions enter through what they do to a string of kept
  characters (a to z, 0 to 9, white space). Lower-casing leaves such a string alone. So does
  canonical decomposition when the characters are ones that a decomposition can produce:
  of the kept characters only U+2000 and U+2001 have a canonical decomposition (to U+2002
  and U+2003), and the first pass has already replaced them.
\<close>

theorem normalize_idempotent:
  assumes lower: "\<And>t. \<forall>c\<in>set t. keptChar c \<Longrightarrow> toLowerCase P t = t"
    and nfd: "\<And>s t. set t \<subseteq> set (normalizeNFD P s) \<Longrightarrow> \<forall>c\<in>set t. keptChar c
                \<Longrightarrow> normalizeNFD P t = t"
  shows "normalize P (normalize P s) = normalize P s"
proof (cases "s = []")
  case True then show ?thesis by (simp add: normalize_def)
next
  case False
  let ?t = "normalize P s"
  have k: "\<forall>c\<in>set ?t. keptChar c" by (simp add: normalize_kept)
  have "toLowerCase P ?t = ?t" using k by (rule lower)
  moreover have "normalizeNFD P ?t = ?t"
    using normalize_from_nfd[OF False] k by (rule nfd)
  ultimately show ?thesis
    using k trim_normalize by (intro normalize_fixed) auto
qed

theorem normalize_idempotent_witness:
  "normalize asciiPlatform (normalize asciiPlatform (js '' New  York, NY! ''))
     = normalize asciiPlatform (js '' New  York, NY! '')
   \<and> normalize asciiPlatform (js '' New  York, NY! '') = js ''new  york ny''"
proof -
  have "normalize asciiPlatform (js '' New  York, NY! '') = js ''new  york ny''"
    by code_simp
  moreover have "normalize asciiPlatform (normalize asciiPlatform (js '' New  York, NY! ''))
     = normalize asciiPlatform (js '' New  York, NY! '')"
    by (rule normalize_idempotent, rule ascii_lower_fixed, assumption)
       (simp add: asciiPlatform_def)
  ultimately show ?thesis by simp
qed

text \<open>
  C4, as the code has it. normalize is total and returns the empty string for the empty
  string. It lower-cases, decomposes, strips the combining marks U+0300 to U+036F, removes
  every character that is neither a to z, 0 to 9 nor white space (any character of the
  class \<^verbatim>\<open>\s\<close>, not the space alone), and trims both ends. White space inside the string
  is kept as it is: a string of kept characters with no white space at its ends, which the
  host's lower-casing and decomposition leave alone, is returned unchanged, whatever runs
  of white space it has inside.
\<close>

theorem normalize_contract:
  "normalize P [] = []
   \<and> (\<forall>c\<in>set (normalize P s). isLowerAlnum c \<or> isWhiteSpace c)
   \<and> trim (normalize P s) = normalize P s
   \<and> (s \<noteq> [] \<longrightarrow> normalize P s =
         trim (filter keptChar (filter (\<lambda>c. \<not> isDiacritic c)
                 (normalizeNFD P (toLowerCase P s)))))
   \<and> ((\<forall>c\<in>set s. keptChar c) \<and> toLowerCase P s = s \<and> normalizeNFD P s = s \<and> trim s = s
        \<longrightarrow> normalize P s = s)"
proof (intro conjI)
  show "normalize P [] = []" by (simp add: normalize_def)
  show "\<forall>c\<in>set (normalize P s). isLowerAlnum c \<or> isWhiteSpace c"
    using normalize_kept[of _ P s] by (simp add: keptChar_def)
  show "trim (normalize P s) = normalize P s" by (rule trim_normalize)
  show "s \<noteq> [] \<longrightarrow> normalize P s =
         trim (filter keptChar (filter (\<lambda>c. \<not> isDiacritic c)
                 (normalizeNFD P (toLowerCase P s))))"
    by (simp add: normalize_def)
  show "(\<forall>c\<in>set s. keptChar c) \<and> toLowerCase P s = s \<and> normalizeNFD P s = s \<and> trim s = s
        \<longrightarrow> normalize P s = s"
    using normalize_fixed[of s P] by blast
qed

theorem normalize_contract_witness:
  "list_all keptChar (js ''new  york'')
   \<and> toLowerCase asciiPlatform (js ''new  york'') = js ''new  york''
   \<and> normalizeNFD asciiPlatform (js ''new  york'') = js ''new  york''
   \<and> trim (js ''new  york'') = js ''new  york''
   \<and> js ''new  york'' \<noteq> []
   \<and> normalize asciiPlatform (js ''new  york'') = js ''new  york''
   \<and> list_all (\<lambda>c. isLowerAlnum c \<or> isWhiteSpace c) (normalize asciiPlatform (js ''new  york''))"
proof -
  have h: "list_all keptChar (js ''new  york'')
   \<and> toLowerCase asciiPlatform (js ''new  york'') = js ''new  york''
   \<and> normalizeNFD asciiPlatform (js ''new  york'') = js ''new  york''
   \<and> trim (js ''new  york'') = js ''new  york''
   \<and> js ''new  york'' \<noteq> []"
    by code_simp
  show ?thesis
    using h normalize_contract[of asciiPlatform "js ''new  york''"]
    unfolding list_all_iff by blast
qed

text \<open>
  The input \<^verbatim>\<open>"New  York"\<close>, with two spaces, normalizes to \<^verbatim>\<open>"new  york"\<close>, with two
  spaces: the run is not collapsed. A tab between two letters stays a tab.
\<close>

theorem normalize_collapse_counterexample:
  "normalize asciiPlatform (js ''New  York'') = js ''new  york''
   \<and> normalize asciiPlatform [97, 9, 98] = [97, 9, 98]"
  by code_simp

section \<open>Properties of the pin radius\<close>

lemma ln_ratio_mono:
  assumes "1 \<le> m" "c \<le> c'"
  shows "ln (real c + 1) / ln (real m + 1) \<le> ln (real c' + 1) / ln (real m + 1)"
proof -
  have "0 < ln (real m + 1)" using assms(1) by simp
  moreover have "ln (real c + 1) \<le> ln (real c' + 1)" using assms(2) by simp
  ultimately show ?thesis by (simp add: divide_right_mono)
qed

lemma ln_ratio_bounds:
  assumes "1 \<le> m" "c \<le> m"
  shows "0 \<le> ln (real c + 1) / ln (real m + 1)" "ln (real c + 1) / ln (real m + 1) \<le> 1"
proof -
  have p: "0 < ln (real m + 1)" using assms(1) by simp
  have "0 \<le> ln (real c + 1)" by simp
  with p show "0 \<le> ln (real c + 1) / ln (real m + 1)" by simp
  have "ln (real c + 1) \<le> ln (real m + 1)" using assms(2) by simp
  with p show "ln (real c + 1) / ln (real m + 1) \<le> 1" by simp
qed

lemma ln_ratio_strict:
  assumes "1 < m"
  shows "ln (real 1 + 1) / ln (real m + 1) < ln (real m + 1) / ln (real m + 1)"
proof -
  have p: "0 < ln (real m + 1)" using assms by simp
  have "ln (real 1 + 1) < ln (real m + 1)" using assms by simp
  with p show ?thesis by (simp add: divide_strict_right_mono)
qed

lemma affine_mono: "(a::real) \<le> b \<Longrightarrow> 6 + a * 14 \<le> 6 + b * 14"
  by simp

lemma affine_strict: "(a::real) < b \<Longrightarrow> 6 + a * 14 < 6 + b * 14"
  by simp

lemma getPinRadius_affine:
  "getPinRadius c m = 6 + (ln (real c + 1) / ln (real m + 1)) * 14"
  by (simp add: getPinRadius_def pinBaseRadius_def pinMaxRadius_def)

text \<open>
  C9. The pin radius is 6 + (ln (count + 1) / ln (maxCount + 1)) * (20 - 6). For every
  maxCount of at least 1 it does not decrease when count grows, it lies between 6 and 20
  for every count from 1 to maxCount, and the radius at maxCount is strictly above the
  radius at 1 when maxCount is above 1. The statement is about the real-valued expression.
\<close>

theorem getPinRadius_scale:
  "getPinRadius c m = 6 + (ln (real c + 1) / ln (real m + 1)) * (20 - 6)
   \<and> (1 \<le> m \<longrightarrow>
        (c \<le> c' \<longrightarrow> getPinRadius c m \<le> getPinRadius c' m)
      \<and> (1 \<le> c \<and> c \<le> m \<longrightarrow> 6 \<le> getPinRadius c m \<and> getPinRadius c m \<le> 20)
      \<and> (1 < m \<longrightarrow> getPinRadius 1 m < getPinRadius m m))"
proof (intro conjI impI)
  show "getPinRadius c m = 6 + (ln (real c + 1) / ln (real m + 1)) * (20 - 6)"
    by (simp add: getPinRadius_def pinBaseRadius_def pinMaxRadius_def)
next
  assume "1 \<le> m" "c \<le> c'"
  then have "ln (real c + 1) / ln (real m + 1) \<le> ln (real c' + 1) / ln (real m + 1)"
    by (rule ln_ratio_mono)
  then show "getPinRadius c m \<le> getPinRadius c' m"
    unfolding getPinRadius_affine by (rule affine_mono)
next
  assume "1 \<le> m" "1 \<le> c \<and> c \<le> m"
  then have "0 \<le> ln (real c + 1) / ln (real m + 1)"
    using ln_ratio_bounds(1)[of m c] by blast
  then have "6 + 0 * 14 \<le> 6 + (ln (real c + 1) / ln (real m + 1)) * 14"
    by (rule affine_mono)
  then show "6 \<le> getPinRadius c m"
    unfolding getPinRadius_affine by simp
next
  assume "1 \<le> m" "1 \<le> c \<and> c \<le> m"
  then have "ln (real c + 1) / ln (real m + 1) \<le> 1"
    using ln_ratio_bounds(2)[of m c] by blast
  then have "6 + (ln (real c + 1) / ln (real m + 1)) * 14 \<le> 6 + 1 * 14"
    by (rule affine_mono)
  then show "getPinRadius c m \<le> 20"
    unfolding getPinRadius_affine by simp
next
  assume "1 \<le> m" "1 < m"
  then have "ln (real 1 + 1) / ln (real m + 1) < ln (real m + 1) / ln (real m + 1)"
    using ln_ratio_strict[of m] by blast
  then show "getPinRadius 1 m < getPinRadius m m"
    unfolding getPinRadius_affine by (rule affine_strict)
qed

theorem getPinRadius_scale_witness:
  "(1::nat) \<le> 3 \<and> (1::nat) \<le> 2 \<and> (2::nat) \<le> 3 \<and> (1::nat) < 3
   \<and> getPinRadius 1 3 \<le> getPinRadius 2 3
   \<and> 6 \<le> getPinRadius 2 3 \<and> getPinRadius 2 3 \<le> 20
   \<and> getPinRadius 1 3 < getPinRadius 3 3
   \<and> getPinRadius 3 3 = 20"
proof -
  have "getPinRadius 3 3 = 20"
    by (simp add: getPinRadius_def pinBaseRadius_def pinMaxRadius_def)
  then show ?thesis
    using getPinRadius_scale[of 2 3 2] getPinRadius_scale[of 1 3 2] by simp
qed

section \<open>Properties of parseLocation\<close>

declare splitDelims.simps [simp del]

lemma splitDelims_nonempty: "splitDelims s \<noteq> []"
  by (subst splitDelims.simps) (simp add: Let_def)

lemma concat_splitDelims: "concat (splitDelims s) = filter (\<lambda>c. \<not> isDelim c) s"
proof (induction s rule: splitDelims.induct)
  case (1 s)
  let ?rest = "dropWhile (\<lambda>c. \<not> isDelim c) s"
  show ?case
  proof (cases "?rest = []")
    case True
    then have "\<forall>c\<in>set s. \<not> isDelim c"
      by (simp add: dropWhile_eq_Nil_conv)
    moreover have "splitDelims s = [takeWhile (\<lambda>c. \<not> isDelim c) s]"
      using True by (subst splitDelims.simps) (simp add: Let_def del: dropWhile_eq_Nil_conv)
    ultimately show ?thesis
      by (simp add: filter_id_conv takeWhile_eq_all_conv)
  next
    case False
    have ih: "concat (splitDelims (dropWhile isDelim ?rest))
              = filter (\<lambda>c. \<not> isDelim c) (dropWhile isDelim ?rest)"
      using "1.IH"[OF refl refl False] .
    have a: "filter (\<lambda>c. \<not> isDelim c) (dropWhile isDelim t) = filter (\<lambda>c. \<not> isDelim c) t" for t
      by (induction t) auto
    have b: "s = takeWhile (\<lambda>c. \<not> isDelim c) s @ ?rest" by simp
    have c: "filter (\<lambda>c. \<not> isDelim c) (takeWhile (\<lambda>c. \<not> isDelim c) s) = takeWhile (\<lambda>c. \<not> isDelim c) s"
      using set_takeWhileD[of _ "\<lambda>c. \<not> isDelim c" s] by (simp add: filter_id_conv)
    have "filter (\<lambda>c. \<not> isDelim c) s
          = takeWhile (\<lambda>c. \<not> isDelim c) s @ filter (\<lambda>c. \<not> isDelim c) ?rest"
      by (subst b, subst filter_append) (simp add: c)
    moreover have "splitDelims s
          = takeWhile (\<lambda>c. \<not> isDelim c) s # splitDelims (dropWhile isDelim ?rest)"
      using False by (subst splitDelims.simps) (simp add: Let_def del: dropWhile_eq_Nil_conv)
    ultimately show ?thesis
      by (simp add: ih a)
  qed
qed

lemma splitDelims_no_delim:
  "\<forall>c\<in>set s. \<not> isDelim c \<Longrightarrow> splitDelims s = [s]"
  by (subst splitDelims.simps) (simp add: Let_def dropWhile_eq_Nil_conv takeWhile_eq_all_conv)

lemma splitDelims_fragments: "f \<in> set (splitDelims s) \<Longrightarrow> c \<in> set f \<Longrightarrow> \<not> isDelim c"
proof -
  assume "f \<in> set (splitDelims s)" "c \<in> set f"
  then have "c \<in> set (concat (splitDelims s))" by auto
  then show ?thesis by (simp add: concat_splitDelims)
qed

lemma trim_eq_Nil: "trim p = [] \<longleftrightarrow> (\<forall>c\<in>set p. isWhiteSpace c)"
proof
  assume "trim p = []"
  then have "dropWhile isWhiteSpace (rev (dropWhile isWhiteSpace p)) = []"
    by (simp add: trim_def)
  then have "\<forall>c\<in>set (dropWhile isWhiteSpace p). isWhiteSpace c"
    by (simp add: dropWhile_eq_Nil_conv)
  moreover have "dropWhile isWhiteSpace p = [] \<or> \<not> isWhiteSpace (hd (dropWhile isWhiteSpace p))"
    using hd_dropWhile by blast
  ultimately have "dropWhile isWhiteSpace p = []"
    by (cases "dropWhile isWhiteSpace p") auto
  then show "\<forall>c\<in>set p. isWhiteSpace c" by (simp add: dropWhile_eq_Nil_conv)
next
  assume "\<forall>c\<in>set p. isWhiteSpace c"
  then have "dropWhile isWhiteSpace p = []" by (simp add: dropWhile_eq_Nil_conv)
  then show "trim p = []" by (simp add: trim_def del: dropWhile_eq_Nil_conv)
qed

lemma parts_empty_iff:
  "filter (\<lambda>p. p \<noteq> []) (map trim (splitDelims str)) = []
     \<longleftrightarrow> (\<forall>c\<in>set str. isDelim c \<or> isWhiteSpace c)"
proof -
  have "filter (\<lambda>p. p \<noteq> []) (map trim (splitDelims str)) = []
        \<longleftrightarrow> (\<forall>f\<in>set (splitDelims str). trim f = [])"
    by (auto simp: filter_empty_conv)
  also have "\<dots> \<longleftrightarrow> (\<forall>c\<in>set (concat (splitDelims str)). isWhiteSpace c)"
    by (auto simp: trim_eq_Nil)
  also have "\<dots> \<longleftrightarrow> (\<forall>c\<in>set str. isDelim c \<or> isWhiteSpace c)"
    by (auto simp: concat_splitDelims)
  finally show ?thesis .
qed

lemma firstSome_Some: "firstSome xs = Some y \<Longrightarrow> Some y \<in> set xs"
  by (induction xs rule: firstSome.induct) auto

lemma firstSome_None: "firstSome xs = None \<longleftrightarrow> (\<forall>x\<in>set xs. x = None)"
  by (induction xs rule: firstSome.induct) auto

lemma firstSome_map: "firstSome (map f ks) = Some y \<Longrightarrow> \<exists>k\<in>set ks. f k = Some y"
  by (induction ks) (auto split: option.splits elim: firstSome.elims)

lemma rxMatch_suffix: "rxMatch p b s = Some rest \<Longrightarrow> suffix rest s"
proof (induction p b s rule: rxMatch.induct)
  case (1 atStart s)
  then show ?case by simp
next
  case (2 r atStart s)
  then show ?case by (simp split: if_splits)
next
  case (3 r atStart s)
  then show ?case by (simp split: if_splits)
next
  case (4 w r atStart s)
  then have "suffix rest (drop (length w) s)" by (simp split: if_splits)
  then show ?case using suffix_drop suffix_order.trans by blast
next
  case (5 r atStart s)
  show ?case
  proof (cases s)
    case Nil
    with 5 show ?thesis by simp
  next
    case (Cons c s')
    show ?thesis
    proof (cases "c = 45 \<and> rxMatch r False s' \<noteq> None")
      case True
      with 5 Cons have "suffix rest s'" by auto
      then show ?thesis using Cons by (simp add: suffix_Cons)
    next
      case False
      with 5 Cons show ?thesis by (auto split: if_splits option.splits)
    qed
  qed
next
  case (6 r atStart s)
  from "6.prems" have "\<exists>k\<in>set (rev [0..<Suc (length (takeWhile isWhiteSpace s))]).
      rxMatch r (atStart \<and> k = 0) (drop k s) = Some rest"
    by (simp only: rxMatch.simps) (rule firstSome_map)
  then obtain k where k: "k \<in> set (rev [0..<Suc (length (takeWhile isWhiteSpace s))])"
      and m: "rxMatch r (atStart \<and> k = 0) (drop k s) = Some rest"
    by blast
  then have "suffix rest (drop k s)" using "6.IH" by blast
  then show ?case using suffix_drop suffix_order.trans by blast
qed

lemma rxMatch_Lit:
  "rxMatch p b s = Some rest \<Longrightarrow> Lit w \<in> set p
     \<Longrightarrow> \<exists>u. suffix u s \<and> ciPrefix w u \<and> suffix rest (drop (length w) u)"
proof (induction p b s rule: rxMatch.induct)
  case (1 atStart s)
  then show ?case by simp
next
  case (2 r atStart s)
  then show ?case by (simp split: if_splits)
next
  case (3 r atStart s)
  then show ?case by (simp split: if_splits)
next
  case (4 w' r atStart s)
  from "4.prems" have pre: "ciPrefix w' s"
    and m: "rxMatch r (atStart \<and> w' = []) (drop (length w') s) = Some rest"
    by (simp_all split: if_splits)
  show ?case
  proof (cases "w = w'")
    case True
    then show ?thesis using pre rxMatch_suffix[OF m] by blast
  next
    case False
    with "4.prems" have "Lit w \<in> set r" by simp
    from "4.IH"[OF pre m this] obtain u where
      "suffix u (drop (length w') s)" "ciPrefix w u" "suffix rest (drop (length w) u)"
      by blast
    then show ?thesis using suffix_drop suffix_order.trans by blast
  qed
next
  case (5 r atStart s)
  from "5.prems" have w: "Lit w \<in> set r" by simp
  show ?case
  proof (cases s)
    case Nil
    with 5 w show ?thesis by simp
  next
    case (Cons c s')
    show ?thesis
    proof (cases "c = 45 \<and> rxMatch r False s' \<noteq> None")
      case True
      with "5.prems" Cons have m: "rxMatch r False s' = Some rest" by auto
      from True Cons "5.IH"(2)[OF Cons _ m w] obtain u where
        "suffix u s'" "ciPrefix w u" "suffix rest (drop (length w) u)" by blast
      then show ?thesis using Cons by (auto simp: suffix_Cons)
    next
      case False
      with 5 Cons w show ?thesis by (auto split: if_splits option.splits)
    qed
  qed
next
  case (6 r atStart s)
  from "6.prems" have w: "Lit w \<in> set r" by simp
  from "6.prems" have "\<exists>k\<in>set (rev [0..<Suc (length (takeWhile isWhiteSpace s))]).
      rxMatch r (atStart \<and> k = 0) (drop k s) = Some rest"
    by (simp only: rxMatch.simps) (rule firstSome_map)
  then obtain k where k: "k \<in> set (rev [0..<Suc (length (takeWhile isWhiteSpace s))])"
      and m: "rxMatch r (atStart \<and> k = 0) (drop k s) = Some rest"
    by blast
  from "6.IH"[OF k m w] obtain u where
    "suffix u (drop k s)" "ciPrefix w u" "suffix rest (drop (length w) u)" by blast
  then show ?case using suffix_drop suffix_order.trans by blast
qed

lemma ciPrefix_hd:
  "ciPrefix w u \<Longrightarrow> w \<noteq> [] \<Longrightarrow> u \<noteq> [] \<and> canonicalize (hd w) = canonicalize (hd u)"
  by (cases w; cases u) auto

lemma canonicalize_letter:
  "canonicalize p = canonicalize c \<Longrightarrow> 97 \<le> p \<and> p \<le> 122 \<Longrightarrow> c = p \<or> c = p - 32"
  by (auto simp: canonicalize_def split: if_splits)

lemma letter_not_separator:
  "canonicalize p = canonicalize c \<Longrightarrow> 97 \<le> p \<and> p \<le> 122 \<Longrightarrow> \<not> isDelim c \<and> \<not> isWhiteSpace c"
  by (auto simp: canonicalize_def isDelim_def isWhiteSpace_def split: if_splits)

lemma rxMatch_separators_only:
  assumes "Lit w \<in> set p" "w \<noteq> []" "97 \<le> hd w \<and> hd w \<le> 122"
    and "\<forall>c\<in>set s. isDelim c \<or> isWhiteSpace c"
  shows "rxMatch p b s = None"
proof (rule ccontr)
  assume "rxMatch p b s \<noteq> None"
  then obtain rest where "rxMatch p b s = Some rest" by auto
  from rxMatch_Lit[OF this assms(1)] obtain u where u: "suffix u s" "ciPrefix w u" by blast
  from ciPrefix_hd[OF u(2) assms(2)] have "u \<noteq> []" "canonicalize (hd w) = canonicalize (hd u)"
    by simp_all
  then have "\<not> isDelim (hd u) \<and> \<not> isWhiteSpace (hd u)"
    using letter_not_separator assms(3) by blast
  moreover have "hd u \<in> set s"
    using \<open>u \<noteq> []\<close> u(1) by (metis hd_in_set set_mono_suffix subsetD)
  ultimately show False using assms(4) by blast
qed

lemma replaceAll_no_match:
  "(\<And>u b'. suffix u s \<Longrightarrow> rxMatch p b' u = None) \<Longrightarrow> replaceAll p b s = s"
proof (induction s arbitrary: b)
  case Nil
  then show ?case by simp
next
  case (Cons c cs)
  have "rxMatch p b (c # cs) = None" using Cons.prems by simp
  moreover have "replaceAll p False cs = cs"
    using Cons.prems by (intro Cons.IH) (simp add: suffix_Cons)
  ultimately show ?case by simp
qed

lemma replaceAll_separators_only:
  assumes "Lit w \<in> set p" "w \<noteq> []" "97 \<le> hd w \<and> hd w \<le> 122"
    and "\<forall>c\<in>set s. isDelim c \<or> isWhiteSpace c"
  shows "replaceAll p b s = s"
proof (rule replaceAll_no_match)
  fix u b' assume "suffix u s"
  then have "\<forall>c\<in>set u. isDelim c \<or> isWhiteSpace c"
    using assms(4) by (meson set_mono_suffix subsetD)
  then show "rxMatch p b' u = None"
    using assms(1-3) by (intro rxMatch_separators_only)
qed

lemma fold_removePatterns_separators_only:
  assumes "\<forall>c\<in>set s. isDelim c \<or> isWhiteSpace c"
  shows "fold (\<lambda>pattern str. replaceAll pattern True str) removePatterns s = s"
proof -
  have w: "js ''work'' \<noteq> [] \<and> 97 \<le> hd (js ''work'') \<and> hd (js ''work'') \<le> 122"
       "js ''wfh'' \<noteq> [] \<and> 97 \<le> hd (js ''wfh'') \<and> hd (js ''wfh'') \<le> 122"
       "js ''home'' \<noteq> [] \<and> 97 \<le> hd (js ''home'') \<and> hd (js ''home'') \<le> 122"
       "js ''office'' \<noteq> [] \<and> 97 \<le> hd (js ''office'') \<and> hd (js ''office'') \<le> 122"
       "js ''remote'' \<noteq> [] \<and> 97 \<le> hd (js ''remote'') \<and> hd (js ''remote'') \<le> 122"
    by (simp_all add: js_def)
  show ?thesis
    unfolding removePatterns_def fold_simps
    using assms w
    by (simp add: replaceAll_separators_only[where w="js ''work''"]
        replaceAll_separators_only[where w="js ''wfh''"]
        replaceAll_separators_only[where w="js ''home''"]
        replaceAll_separators_only[where w="js ''office''"]
        replaceAll_separators_only[where w="js ''remote''"] del: replaceAll.simps)
qed

lemma set_collapseWhiteSpace:
  "c \<in> set (collapseWhiteSpace s) \<Longrightarrow> c \<in> set s \<or> c = 32"
proof (induction s rule: collapseWhiteSpace.induct)
  case 1
  then show ?case by simp
next
  case (2 d ds)
  then show ?case
    by (auto split: if_splits dest: set_dropWhileD)
qed

lemma space_isWhiteSpace: "isWhiteSpace 32"
  by (simp add: isWhiteSpace_def)

lemma stripQualifiers_separators_only:
  assumes "\<forall>c\<in>set s. isDelim c \<or> isWhiteSpace c"
  shows "\<forall>c\<in>set (stripQualifiers s). isDelim c \<or> isWhiteSpace c"
proof
  fix c assume c: "c \<in> set (stripQualifiers s)"
  have t: "\<forall>c\<in>set (trim s). isDelim c \<or> isWhiteSpace c"
    using assms set_trim by blast
  from c have "c \<in> set (collapseWhiteSpace (trim s))"
    unfolding stripQualifiers_def fold_removePatterns_separators_only[OF t]
    using set_trim by blast
  then have "c \<in> set (trim s) \<or> c = 32" by (rule set_collapseWhiteSpace)
  then show "isDelim c \<or> isWhiteSpace c" using t space_isWhiteSpace by blast
qed

lemma cleanLocation_separators_only:
  assumes "\<forall>c\<in>set s. isDelim c \<or> isWhiteSpace c"
  shows "\<forall>c\<in>set (cleanLocation s). isDelim c \<or> isWhiteSpace c"
proof (cases "stripQualifiers s = []")
  case True
  then have "cleanLocation s = trim s" by (simp add: cleanLocation_def)
  then show ?thesis using assms set_trim by fastforce
next
  case False
  then have "cleanLocation s = stripQualifiers s" by (simp add: cleanLocation_def Let_def)
  then show ?thesis using stripQualifiers_separators_only[OF assms] by simp
qed

lemma trim_cleanLocation: "trim (cleanLocation s) = cleanLocation s"
  by (simp add: cleanLocation_def Let_def stripQualifiers_def trim_idem)

lemma parseLocation_None_iff:
  "parseLocation s = None \<longleftrightarrow> s = [] \<or> (\<forall>c\<in>set (cleanLocation s). isDelim c \<or> isWhiteSpace c)"
  using parts_empty_iff[of "cleanLocation s"]
  by (simp add: parseLocation_def Let_def)

lemma trim_fragment:
  "trim (trim f) = trim f \<and> (\<forall>c\<in>set (trim f). c \<in> set f)"
  using set_trim[of f] by (auto simp: trim_idem)

lemma parseLocation_Some:
  assumes "parseLocation s = Some r"
  shows "original r = s" "parts r \<noteq> []"
    "\<forall>p\<in>set (parts r). p \<noteq> [] \<and> trim p = p \<and> (\<forall>c\<in>set p. \<not> isDelim c)"
proof -
  let ?ps = "filter (\<lambda>p. p \<noteq> []) (map trim (splitDelims (cleanLocation s)))"
  from assms have r: "r = \<lparr> original = s, parts = ?ps \<rparr>" and ne: "?ps \<noteq> []"
    by (auto simp: parseLocation_def Let_def split: if_splits)
  show "original r = s" using r by simp
  show "parts r \<noteq> []" using r ne by simp
  show "\<forall>p\<in>set (parts r). p \<noteq> [] \<and> trim p = p \<and> (\<forall>c\<in>set p. \<not> isDelim c)"
  proof
    fix p assume "p \<in> set (parts r)"
    then obtain f where f: "f \<in> set (splitDelims (cleanLocation s))" "p = trim f" "p \<noteq> []"
      using r by auto
    have "\<forall>c\<in>set p. \<not> isDelim c"
      using f(1,2) splitDelims_fragments set_trim by blast
    then show "p \<noteq> [] \<and> trim p = p \<and> (\<forall>c\<in>set p. \<not> isDelim c)"
      using f by (simp add: trim_idem)
  qed
qed

lemma parseLocation_whole:
  assumes "s \<noteq> []" "cleanLocation s \<noteq> []" "\<forall>c\<in>set (cleanLocation s). \<not> isDelim c"
  shows "parseLocation s = Some \<lparr> original = s, parts = [cleanLocation s] \<rparr>"
  using assms by (simp add: parseLocation_def Let_def splitDelims_no_delim trim_cleanLocation)

text \<open>
  C5, as the code has it. parseLocation returns none for the empty input, and also when
  splitting leaves no token: exactly when every character of the cleaned string is a
  comma, a hyphen or white space, which is the case for every raw string made of such
  characters only. Otherwise it returns at least one token, and each token is non-empty,
  trimmed and free of delimiters; when the cleaned string has no delimiter it is the only
  token. When stripping the qualifiers leaves the empty string, the string that is split
  is the trimmed input.
\<close>

theorem parseLocation_tokens:
  "parseLocation [] = None
   \<and> (parseLocation s = None \<longleftrightarrow>
        s = [] \<or> (\<forall>c\<in>set (cleanLocation s). isDelim c \<or> isWhiteSpace c))
   \<and> ((\<forall>c\<in>set s. isDelim c \<or> isWhiteSpace c) \<longrightarrow> parseLocation s = None)
   \<and> (\<forall>r. parseLocation s = Some r \<longrightarrow>
          original r = s \<and> parts r \<noteq> []
          \<and> (\<forall>p\<in>set (parts r). p \<noteq> [] \<and> trim p = p \<and> (\<forall>c\<in>set p. \<not> isDelim c)))
   \<and> (s \<noteq> [] \<and> cleanLocation s \<noteq> [] \<and> (\<forall>c\<in>set (cleanLocation s). \<not> isDelim c)
        \<longrightarrow> parseLocation s = Some \<lparr> original = s, parts = [cleanLocation s] \<rparr>)
   \<and> (stripQualifiers s = [] \<longrightarrow> cleanLocation s = trim s)"
proof (intro conjI)
  show "parseLocation [] = None" by (simp add: parseLocation_def)
  show "parseLocation s = None \<longleftrightarrow>
        s = [] \<or> (\<forall>c\<in>set (cleanLocation s). isDelim c \<or> isWhiteSpace c)"
    by (rule parseLocation_None_iff)
  show "(\<forall>c\<in>set s. isDelim c \<or> isWhiteSpace c) \<longrightarrow> parseLocation s = None"
    using cleanLocation_separators_only[of s] parseLocation_None_iff[of s] by blast
  show "\<forall>r. parseLocation s = Some r \<longrightarrow>
          original r = s \<and> parts r \<noteq> []
          \<and> (\<forall>p\<in>set (parts r). p \<noteq> [] \<and> trim p = p \<and> (\<forall>c\<in>set p. \<not> isDelim c))"
    using parseLocation_Some[of s] by blast
  show "s \<noteq> [] \<and> cleanLocation s \<noteq> [] \<and> (\<forall>c\<in>set (cleanLocation s). \<not> isDelim c)
        \<longrightarrow> parseLocation s = Some \<lparr> original = s, parts = [cleanLocation s] \<rparr>"
    using parseLocation_whole[of s] by blast
  show "stripQualifiers s = [] \<longrightarrow> cleanLocation s = trim s"
    by (simp add: cleanLocation_def)
qed

theorem parseLocation_tokens_witness:
  "stripQualifiers (js '' Remote '') = []
   \<and> cleanLocation (js '' Remote '') = js ''Remote''
   \<and> list_all (\<lambda>c. \<not> isDelim c) (cleanLocation (js '' Remote ''))
   \<and> parseLocation (js '' Remote '') = Some \<lparr> original = js '' Remote '', parts = [js ''Remote''] \<rparr>
   \<and> list_all (\<lambda>c. isDelim c \<or> isWhiteSpace c) (js '' - , '')
   \<and> parseLocation (js '' - , '') = None"
proof -
  have a: "stripQualifiers (js '' Remote '') = []" by code_simp
  have b: "trim (js '' Remote '') = js ''Remote''" by code_simp
  have c: "js '' Remote '' \<noteq> [] \<and> js ''Remote'' \<noteq> []
           \<and> list_all (\<lambda>c. \<not> isDelim c) (js ''Remote'')"
    by code_simp
  have d: "list_all (\<lambda>c. isDelim c \<or> isWhiteSpace c) (js '' - , '')" by code_simp
  have e: "cleanLocation (js '' Remote '') = js ''Remote''"
    by (simp only: cleanLocation_def a b Let_def refl if_True)
  have whole: "js '' Remote '' \<noteq> [] \<and> cleanLocation (js '' Remote '') \<noteq> []
        \<and> (\<forall>c\<in>set (cleanLocation (js '' Remote '')). \<not> isDelim c)
        \<longrightarrow> parseLocation (js '' Remote '')
            = Some \<lparr> original = js '' Remote '', parts = [cleanLocation (js '' Remote '')] \<rparr>"
    using parseLocation_tokens[of "js '' Remote ''"] by blast
  have f: "parseLocation (js '' Remote '')
            = Some \<lparr> original = js '' Remote '', parts = [js ''Remote''] \<rparr>"
    using whole c unfolding e list_all_iff by blast
  have sep: "(\<forall>c\<in>set (js '' - , ''). isDelim c \<or> isWhiteSpace c)
        \<longrightarrow> parseLocation (js '' - , '') = None"
    using parseLocation_tokens[of "js '' - , ''"] by blast
  have g: "parseLocation (js '' - , '') = None"
    using sep d unfolding list_all_iff by blast
  show ?thesis
    using a c d f g unfolding e by blast
qed

text \<open>
  The raw inputs \<^verbatim>\<open>"-"\<close>, \<^verbatim>\<open>","\<close> and \<^verbatim>\<open>" "\<close> are not empty, and parseLocation returns none
  for each of them; so it does for \<^verbatim>\<open>"-wfh-"\<close>, where stripping leaves a lone hyphen.
\<close>

theorem parseLocation_none_counterexample:
  "js ''-'' \<noteq> [] \<and> parseLocation (js ''-'') = None
   \<and> parseLocation (js '','') = None
   \<and> parseLocation (js '' '') = None
   \<and> parseLocation (js ''-wfh-'') = None"
  by code_simp

section \<open>The tier order of the resolver\<close>

lemma js_append: "js (a @ b) = js a @ js b"
  by (simp add: js_def)

lemma firstSome_append:
  "firstSome (xs @ ys) = (case firstSome xs of Some x \<Rightarrow> Some x | None \<Rightarrow> firstSome ys)"
  by (induction xs rule: firstSome.induct) auto

lemma firstMatch_Nil: "firstMatch P dat [] = None"
  by (simp add: firstMatch_def)

lemma firstMatch_Cons:
  "firstMatch P dat (t # ts) =
     (case firstSome (tierResults P dat t) of Some r \<Rightarrow> Some r | None \<Rightarrow> firstMatch P dat ts)"
  by (simp add: firstMatch_def firstSome_append split: option.splits)

lemma resolveParts_firstMatch: "resolveParts P dat tokens = firstMatch P dat tokens"
proof (induction tokens)
  case Nil
  then show ?case by (simp add: firstMatch_Nil)
next
  case (Cons t ts)
  have u: "js '', United States'' = js '', '' @ js ''United States''"
    and c: "js '', Canada'' = js '', '' @ js ''Canada''"
    and a: "js '', Australia'' = js '', '' @ js ''Australia''"
    by (simp_all add: js_def)
  show ?case
    unfolding firstMatch_Cons resolveParts.simps Cons.IH u c a
    by (simp add: tierResults_def stateResult_def countryResult_def split: option.splits)
qed

lemma firstMatch_skip:
  assumes "\<forall>t\<in>set pre. tierResults P dat t = [None, None, None, None]"
  shows "firstMatch P dat (pre @ ts) = firstMatch P dat ts"
  using assms by (induction pre) (simp_all add: firstMatch_Cons)

lemma geocode_miss:
  assumes "raw \<noteq> []" "map_of (cache st) (normalize P raw) = None" "data (init st) = Some d"
    "parseLocation raw = Some parsed"
  shows "fst (geocode P raw st) = resolveParts P (Some d) (parts parsed)"
  using assms by (simp add: geocode_def Let_def)

text \<open>
  C1, as the code has it. For every raw location string that reaches the resolver,
  resolution tries, for each parsed token in token order, the tiers in the fixed order US
  states, Canadian provinces, Australian states, then countries; the first token and tier
  that match end the search, and the result carries that entry's coordinates. So when the
  first token that matches anything matches a subdivision, the result has the
  subdivision's coordinates, whatever country names this or a later token holds; when it
  matches a country only, the result has the country's coordinates, whatever subdivision
  names later tokens hold.
\<close>

theorem geocode_tier_order:
  "resolveParts P dat tokens = firstMatch P dat tokens
   \<and> (raw \<noteq> [] \<and> map_of (cache st) (normalize P raw) = None \<and> data (init st) = Some d
        \<and> parseLocation raw = Some parsed
      \<longrightarrow> fst (geocode P raw st) = firstMatch P (Some d) (parts parsed))
   \<and> ((\<forall>t\<in>set pre. tierResults P dat t = [None, None, None, None]) \<longrightarrow>
        (findUSState P dat tok = Some e
           \<longrightarrow> firstMatch P dat (pre @ tok # post) = Some (stateResult (js ''United States'') e))
      \<and> (findUSState P dat tok = None \<and> findCAProvince P dat tok = Some e
           \<longrightarrow> firstMatch P dat (pre @ tok # post) = Some (stateResult (js ''Canada'') e))
      \<and> (findUSState P dat tok = None \<and> findCAProvince P dat tok = None
          \<and> findAUState P dat tok = Some e
           \<longrightarrow> firstMatch P dat (pre @ tok # post) = Some (stateResult (js ''Australia'') e))
      \<and> (findUSState P dat tok = None \<and> findCAProvince P dat tok = None
          \<and> findAUState P dat tok = None \<and> findCountry P dat tok = Some e
           \<longrightarrow> firstMatch P dat (pre @ tok # post) = Some (countryResult e))
      \<and> (tierResults P dat tok = [None, None, None, None]
           \<longrightarrow> firstMatch P dat (pre @ tok # post) = firstMatch P dat post))
   \<and> lat (stateResult c e) = lat e \<and> lng (stateResult c e) = lng e
   \<and> lat (countryResult e) = lat e \<and> lng (countryResult e) = lng e"
proof (intro conjI impI)
  show "resolveParts P dat tokens = firstMatch P dat tokens"
    by (rule resolveParts_firstMatch)
next
  assume "raw \<noteq> [] \<and> map_of (cache st) (normalize P raw) = None \<and> data (init st) = Some d
        \<and> parseLocation raw = Some parsed"
  then show "fst (geocode P raw st) = firstMatch P (Some d) (parts parsed)"
    using geocode_miss[of raw st P d parsed] by (simp add: resolveParts_firstMatch)
next
  assume pre: "\<forall>t\<in>set pre. tierResults P dat t = [None, None, None, None]"
     and "findUSState P dat tok = Some e"
  then show "firstMatch P dat (pre @ tok # post) = Some (stateResult (js ''United States'') e)"
    by (simp add: firstMatch_skip firstMatch_Cons tierResults_def)
next
  assume pre: "\<forall>t\<in>set pre. tierResults P dat t = [None, None, None, None]"
     and "findUSState P dat tok = None \<and> findCAProvince P dat tok = Some e"
  then show "firstMatch P dat (pre @ tok # post) = Some (stateResult (js ''Canada'') e)"
    by (simp add: firstMatch_skip firstMatch_Cons tierResults_def)
next
  assume pre: "\<forall>t\<in>set pre. tierResults P dat t = [None, None, None, None]"
     and "findUSState P dat tok = None \<and> findCAProvince P dat tok = None
          \<and> findAUState P dat tok = Some e"
  then show "firstMatch P dat (pre @ tok # post) = Some (stateResult (js ''Australia'') e)"
    by (simp add: firstMatch_skip firstMatch_Cons tierResults_def)
next
  assume pre: "\<forall>t\<in>set pre. tierResults P dat t = [None, None, None, None]"
     and "findUSState P dat tok = None \<and> findCAProvince P dat tok = None
          \<and> findAUState P dat tok = None \<and> findCountry P dat tok = Some e"
  then show "firstMatch P dat (pre @ tok # post) = Some (countryResult e)"
    by (simp add: firstMatch_skip firstMatch_Cons tierResults_def)
next
  assume pre: "\<forall>t\<in>set pre. tierResults P dat t = [None, None, None, None]"
     and "tierResults P dat tok = [None, None, None, None]"
  then show "firstMatch P dat (pre @ tok # post) = firstMatch P dat post"
    by (simp add: firstMatch_skip firstMatch_Cons)
qed (simp_all add: stateResult_def countryResult_def)

theorem geocode_tier_order_witness:
  "tierResults asciiPlatform (Some sampleData) (js ''Remote'') = [None, None, None, None]
   \<and> findUSState asciiPlatform (Some sampleData) (js ''California'')
       = Some \<lparr> lat = 36.7783, lng = -119.4179, name = js ''California'', code = js ''CA'' \<rparr>
   \<and> firstMatch asciiPlatform (Some sampleData) [js ''Remote'', js ''California'', js ''United States'']
       = Some (stateResult (js ''United States'')
                \<lparr> lat = 36.7783, lng = -119.4179, name = js ''California'', code = js ''CA'' \<rparr>)
   \<and> findUSState asciiPlatform (Some sampleData) (js ''Ontario'') = None
   \<and> findCAProvince asciiPlatform (Some sampleData) (js ''Ontario'')
       = Some \<lparr> lat = 51.2538, lng = -85.3232, name = js ''Ontario'', code = js ''ON'' \<rparr>
   \<and> firstMatch asciiPlatform (Some sampleData) [js ''Remote'', js ''Ontario'', js ''Canada'']
       = Some (stateResult (js ''Canada'')
                \<lparr> lat = 51.2538, lng = -85.3232, name = js ''Ontario'', code = js ''ON'' \<rparr>)
   \<and> findUSState asciiPlatform (Some sampleData) (js ''NSW'') = None
   \<and> findCAProvince asciiPlatform (Some sampleData) (js ''NSW'') = None
   \<and> findAUState asciiPlatform (Some sampleData) (js ''NSW'')
       = Some \<lparr> lat = -31.2532, lng = 146.9211, name = js ''New South Wales'', code = js ''NSW'' \<rparr>
   \<and> firstMatch asciiPlatform (Some sampleData) [js ''Remote'', js ''NSW'']
       = Some (stateResult (js ''Australia'')
                \<lparr> lat = -31.2532, lng = 146.9211, name = js ''New South Wales'', code = js ''NSW'' \<rparr>)
   \<and> findUSState asciiPlatform (Some sampleData) (js ''Canada'') = None
   \<and> findCAProvince asciiPlatform (Some sampleData) (js ''Canada'') = None
   \<and> findAUState asciiPlatform (Some sampleData) (js ''Canada'') = None
   \<and> findCountry asciiPlatform (Some sampleData) (js ''Canada'')
       = Some \<lparr> lat = 56.1304, lng = -106.3468, name = js ''Canada'', code = js ''CA'' \<rparr>
   \<and> firstMatch asciiPlatform (Some sampleData) [js ''Remote'', js ''Canada'', js ''Ontario'']
       = Some (countryResult \<lparr> lat = 56.1304, lng = -106.3468, name = js ''Canada'', code = js ''CA'' \<rparr>)
   \<and> firstMatch asciiPlatform (Some sampleData) [js ''Remote'', js ''Remote'', js ''Texas'']
       = firstMatch asciiPlatform (Some sampleData) [js ''Texas'']
   \<and> parseLocation (js ''California, United States'')
       = Some \<lparr> original = js ''California, United States'',
                 parts = [js ''California'', js ''United States''] \<rparr>
   \<and> fst (geocode asciiPlatform (js ''California, United States'') (start [Some sampleData]))
       = firstMatch asciiPlatform (Some sampleData) [js ''California'', js ''United States'']"
proof -
  let ?P = asciiPlatform and ?D = "Some sampleData"
  let ?cal = "\<lparr> lat = 36.7783, lng = -119.4179, name = js ''California'', code = js ''CA'' \<rparr>"
  let ?ont = "\<lparr> lat = 51.2538, lng = -85.3232, name = js ''Ontario'', code = js ''ON'' \<rparr>"
  let ?nsw = "\<lparr> lat = -31.2532, lng = 146.9211, name = js ''New South Wales'', code = js ''NSW'' \<rparr>"
  let ?can = "\<lparr> lat = 56.1304, lng = -106.3468, name = js ''Canada'', code = js ''CA'' \<rparr>"
  let ?raw = "js ''California, United States''"
  let ?parsed = "\<lparr> original = ?raw, parts = [js ''California'', js ''United States''] \<rparr>"
  have pre: "tierResults ?P ?D (js ''Remote'') = [None, None, None, None]" by code_simp
  then have pre': "\<forall>t\<in>set [js ''Remote'']. tierResults ?P ?D t = [None, None, None, None]"
    by simp
  have us: "findUSState ?P ?D (js ''California'') = Some ?cal" by code_simp
  have on: "findUSState ?P ?D (js ''Ontario'') = None"
           "findCAProvince ?P ?D (js ''Ontario'') = Some ?ont"
    by code_simp+
  have au: "findUSState ?P ?D (js ''NSW'') = None"
           "findCAProvince ?P ?D (js ''NSW'') = None"
           "findAUState ?P ?D (js ''NSW'') = Some ?nsw"
    by code_simp+
  have ca: "findUSState ?P ?D (js ''Canada'') = None"
           "findCAProvince ?P ?D (js ''Canada'') = None"
           "findAUState ?P ?D (js ''Canada'') = None"
           "findCountry ?P ?D (js ''Canada'') = Some ?can"
    by code_simp+
  have g: "?raw \<noteq> []" "map_of (cache (start [?D])) (normalize ?P ?raw) = None"
          "data (init (start [?D])) = Some sampleData" "parseLocation ?raw = Some ?parsed"
    by code_simp+
  have 1: "firstMatch ?P ?D ([js ''Remote''] @ js ''California'' # [js ''United States''])
       = Some (stateResult (js ''United States'') ?cal)"
    using geocode_tier_order[of ?P ?D _ _ _ _ _ "[js ''Remote'']" "js ''California''" ?cal
        "[js ''United States'']"] pre' us
    by blast
  have 2: "firstMatch ?P ?D ([js ''Remote''] @ js ''Ontario'' # [js ''Canada''])
       = Some (stateResult (js ''Canada'') ?ont)"
    using geocode_tier_order[of ?P ?D _ _ _ _ _ "[js ''Remote'']" "js ''Ontario''" ?ont
        "[js ''Canada'']"] pre' on
    by blast
  have 3: "firstMatch ?P ?D ([js ''Remote''] @ js ''NSW'' # [])
       = Some (stateResult (js ''Australia'') ?nsw)"
    using geocode_tier_order[of ?P ?D _ _ _ _ _ "[js ''Remote'']" "js ''NSW''" ?nsw "[]"] pre' au
    by blast
  have 4: "firstMatch ?P ?D ([js ''Remote''] @ js ''Canada'' # [js ''Ontario''])
       = Some (countryResult ?can)"
    using geocode_tier_order[of ?P ?D _ _ _ _ _ "[js ''Remote'']" "js ''Canada''" ?can
        "[js ''Ontario'']"] pre' ca
    by blast
  have 5: "firstMatch ?P ?D ([js ''Remote''] @ js ''Remote'' # [js ''Texas''])
       = firstMatch ?P ?D [js ''Texas'']"
    using geocode_tier_order[of ?P ?D _ _ _ _ _ "[js ''Remote'']" "js ''Remote''" _
        "[js ''Texas'']"] pre' pre
    by blast
  have 6: "fst (geocode ?P ?raw (start [?D])) = firstMatch ?P ?D (parts ?parsed)"
    using geocode_tier_order[of ?P _ _ ?raw "start [?D]" sampleData ?parsed] g
    by blast
  show ?thesis
    using pre us on au ca g(4) 1 2 3 4 5 6 by simp
qed

text \<open>
  The tokens of \<^verbatim>\<open>"United States, California"\<close> hold a country name and a subdivision
  name, and resolution yields the coordinates of the country: the first token matches no
  subdivision and matches the country, which ends the search.
\<close>

theorem geocode_country_first_counterexample:
  "parseLocation (js ''United States, California'')
     = Some \<lparr> original = js ''United States, California'',
               parts = [js ''United States'', js ''California''] \<rparr>
   \<and> findUSState asciiPlatform (Some sampleData) (js ''California'')
       = Some \<lparr> lat = 36.7783, lng = -119.4179, name = js ''California'', code = js ''CA'' \<rparr>
   \<and> findCountry asciiPlatform (Some sampleData) (js ''United States'')
       = Some \<lparr> lat = 37.0902, lng = -95.7129, name = js ''United States'', code = js ''US'' \<rparr>
   \<and> fst (geocode asciiPlatform (js ''United States, California'') (start [Some sampleData]))
       = Some \<lparr> lat = 37.0902, lng = -95.7129, name = js ''United States'',
                 displayName = js ''United States'' \<rparr>"
  by code_simp

section \<open>The cache and the loading of the gazetteer\<close>

lemma init_cache: "cache (init st) = cache st"
  by (simp add: init_def split: option.splits list.splits)

lemma init_resolverRuns: "resolverRuns (init st) = resolverRuns st"
  by (simp add: init_def split: option.splits list.splits)

lemma init_data_Some: "data st = Some d \<Longrightarrow> data (init st) = Some d"
  by (simp add: init_def)

lemma init_idem_loaded: "data st = Some d \<Longrightarrow> init st = st"
  by (simp add: init_def)

text \<open>What one call of geocode does to the state, by the path it takes.\<close>

lemma geocode_cases:
  obtains
    (empty) "raw = []" "geocode P raw st = (None, st)"
  | (hit) v where "raw \<noteq> []" "map_of (cache st) (normalize P raw) = Some v"
      "geocode P raw st = (v, st)"
  | (nodata) "raw \<noteq> []" "map_of (cache st) (normalize P raw) = None" "data (init st) = None"
      "geocode P raw st = (None, init st)"
  | (noparts) d where "raw \<noteq> []" "map_of (cache st) (normalize P raw) = None"
      "data (init st) = Some d" "parseLocation raw = None" "geocode P raw st = (None, init st)"
  | (resolved) d parsed where "raw \<noteq> []" "map_of (cache st) (normalize P raw) = None"
      "data (init st) = Some d" "parseLocation raw = Some parsed"
      "geocode P raw st =
         (resolveParts P (Some d) (parts parsed),
          (init st)\<lparr> cache := AList.update (normalize P raw)
                                 (resolveParts P (Some d) (parts parsed)) (cache (init st)),
                      resolverRuns := resolverRuns (init st) @ [normalize P raw] \<rparr>)"
proof (cases "raw = []")
  case True
  then show ?thesis using empty by (simp add: geocode_def)
next
  case ne: False
  show ?thesis
  proof (cases "map_of (cache st) (normalize P raw)")
    case (Some v)
    then show ?thesis using hit ne by (simp add: geocode_def)
  next
    case miss: None
    show ?thesis
    proof (cases "data (init st)")
      case None
      then show ?thesis using nodata ne miss by (simp add: geocode_def)
    next
      case (Some d)
      show ?thesis
      proof (cases "parseLocation raw")
        case None
        then show ?thesis using noparts ne miss Some by (simp add: geocode_def)
      next
        case (Some parsed)
        then show ?thesis using resolved ne miss \<open>data (init st) = Some d\<close>
          by (simp add: geocode_def Let_def)
      qed
    qed
  qed
qed

lemma cachedFromData_init:
  assumes "cachedFromData P st"
  shows "cachedFromData P (init st)"
  unfolding cachedFromData_def
proof (intro allI impI)
  fix k v assume "map_of (cache (init st)) k = Some v"
  then have m: "map_of (cache st) k = Some v" by (simp add: init_cache)
  with assms obtain d raw parsed where d: "data st = Some d" and
    r: "raw \<noteq> []" "normalize P raw = k" "parseLocation raw = Some parsed"
       "v = resolveParts P (Some d) (parts parsed)"
    unfolding cachedFromData_def by blast
  from d have "data (init st) = Some d" by (rule init_data_Some)
  with r show "\<exists>d raw parsed. data (init st) = Some d \<and> raw \<noteq> [] \<and> normalize P raw = k
           \<and> parseLocation raw = Some parsed \<and> v = resolveParts P (Some d) (parts parsed)"
    by blast
qed

lemma runsCached_init: "runsCached st \<Longrightarrow> runsCached (init st)"
  by (simp add: runsCached_def init_cache init_resolverRuns)

lemma cachedFromData_geocode:
  assumes "cachedFromData P st"
  shows "cachedFromData P (snd (geocode P raw st))"
proof (cases rule: geocode_cases[where raw=raw and P=P and st=st])
  case empty
  then show ?thesis using assms by simp
next
  case (hit v)
  then show ?thesis using assms by simp
next
  case nodata
  then show ?thesis using cachedFromData_init[OF assms] by simp
next
  case (noparts d)
  then show ?thesis using cachedFromData_init[OF assms] by simp
next
  case (resolved d parsed)
  let ?k0 = "normalize P raw" and ?r = "resolveParts P (Some d) (parts parsed)"
  let ?st' = "(init st)\<lparr> cache := AList.update ?k0 ?r (cache (init st)),
                          resolverRuns := resolverRuns (init st) @ [?k0] \<rparr>"
  have "cachedFromData P ?st'"
    unfolding cachedFromData_def
  proof (intro allI impI)
    fix k v assume m: "map_of (cache ?st') k = Some v"
    show "\<exists>d raw parsed. data ?st' = Some d \<and> raw \<noteq> [] \<and> normalize P raw = k
           \<and> parseLocation raw = Some parsed \<and> v = resolveParts P (Some d) (parts parsed)"
    proof (cases "k = ?k0")
      case True
      with m have "v = ?r" by (simp add: update_conv')
      then show ?thesis using resolved True by auto
    next
      case False
      with m have "map_of (cache (init st)) k = Some v" by (simp add: update_conv')
      then show ?thesis
        using cachedFromData_init[OF assms] unfolding cachedFromData_def by simp
    qed
  qed
  then show ?thesis using resolved by simp
qed

lemma runsCached_geocode:
  assumes "runsCached st"
  shows "runsCached (snd (geocode P raw st))"
proof (cases rule: geocode_cases[where raw=raw and P=P and st=st])
  case empty
  then show ?thesis using assms by simp
next
  case (hit v)
  then show ?thesis using assms by simp
next
  case nodata
  then show ?thesis using runsCached_init[OF assms] by simp
next
  case (noparts d)
  then show ?thesis using runsCached_init[OF assms] by simp
next
  case (resolved d parsed)
  let ?k0 = "normalize P raw"
  have "?k0 \<notin> set (resolverRuns st)"
    using assms resolved(2) unfolding runsCached_def by auto
  then show ?thesis
    using assms resolved unfolding runsCached_def
    by (auto simp: init_cache init_resolverRuns update_conv')
qed

lemma cache_kept_geocode:
  assumes "map_of (cache st) k = Some v"
  shows "map_of (cache (snd (geocode P raw st))) k = Some v"
proof (cases rule: geocode_cases[where raw=raw and P=P and st=st])
  case (resolved d parsed)
  then have "k \<noteq> normalize P raw" using assms by auto
  then show ?thesis using resolved assms by (simp add: init_cache update_conv')
qed (use assms in \<open>simp_all add: init_cache\<close>)

lemma batchLoop_state:
  "snd (batchLoop P ls results st) = fold (\<lambda>l s. snd (geocode P l s)) ls st"
  by (induction ls arbitrary: results st) (simp_all split: prod.splits)

lemma fold_geocode_inv:
  assumes "\<And>raw s. I s \<Longrightarrow> I (snd (geocode P raw s))" "I st"
  shows "I (fold (\<lambda>l s. snd (geocode P l s)) ls st)"
  using assms(2) by (induction ls arbitrary: st) (simp_all add: assms(1))

lemma exec_inv:
  assumes g: "\<And>raw s. I s \<Longrightarrow> I (snd (geocode P raw s))"
    and i: "\<And>s. I s \<Longrightarrow> I (init s)"
    and c: "c = ClearCache \<Longrightarrow> I (clearCache st)"
    and "I st"
  shows "I (exec P c st)"
proof (cases c)
  case Init
  then show ?thesis using i assms(4) by simp
next
  case (Geocode raw)
  then show ?thesis using g assms(4) by simp
next
  case (GeocodeBatch ls)
  then show ?thesis
    using fold_geocode_inv[of I P "init st", OF g] i assms(4)
    by (simp add: geocodeBatch_def batchLoop_state)
next
  case ClearCache
  then show ?thesis using c by simp
qed

lemma cachedFromData_exec: "cachedFromData P st \<Longrightarrow> cachedFromData P (exec P c st)"
  by (rule exec_inv[where I="cachedFromData P"])
     (simp_all add: cachedFromData_geocode cachedFromData_init,
      simp add: cachedFromData_def clearCache_def)

lemma runsCached_exec: "runsCached st \<Longrightarrow> runsCached (exec P c st)"
  by (rule exec_inv[where I=runsCached])
     (simp_all add: runsCached_geocode runsCached_init,
      simp add: runsCached_def clearCache_def)

lemma cache_kept_exec:
  assumes "map_of (cache st) k = Some v" "c \<noteq> ClearCache"
  shows "map_of (cache (exec P c st)) k = Some v"
  using assms
  by (intro exec_inv[where I="\<lambda>s. map_of (cache s) k = Some v"])
     (simp_all add: cache_kept_geocode init_cache)

lemma run_inv:
  assumes "\<And>c s. c \<in> set calls \<Longrightarrow> I s \<Longrightarrow> I (exec P c s)" "I st"
  shows "I (run P calls st)"
  using assms unfolding run_def
  by (induction calls arbitrary: st) simp_all

lemma cachedFromData_start: "cachedFromData P (start ls)"
  by (simp add: cachedFromData_def start_def)

lemma runsCached_start: "runsCached (start ls)"
  by (simp add: runsCached_def start_def)

lemma cachedFromData_run: "cachedFromData P (run P calls (start ls))"
  by (rule run_inv) (simp_all add: cachedFromData_exec cachedFromData_start)

lemma runsCached_run: "runsCached (run P calls (start ls))"
  by (rule run_inv) (simp_all add: runsCached_exec runsCached_start)

lemma cache_kept_run:
  assumes "map_of (cache st) k = Some v" "ClearCache \<notin> set calls"
  shows "map_of (cache (run P calls st)) k = Some v"
  using assms
  by (intro run_inv[where I="\<lambda>s. map_of (cache s) k = Some v"])
     (auto intro: cache_kept_exec)

lemma init_fails: "data st = None \<Longrightarrow> nextLoadFails st \<Longrightarrow> data (init st) = None"
  by (auto simp: init_def nextLoadFails_def split: list.splits)

lemma cache_empty_without_data:
  assumes "cachedFromData P st" "data st = None"
  shows "cache st = []"
proof -
  have "map_of (cache st) k = None" for k
    using assms unfolding cachedFromData_def by (cases "map_of (cache st) k") auto
  then show ?thesis
  proof (cases "cache st")
    case Nil
    then show ?thesis .
  next
    case (Cons kv rest)
    then have "map_of (cache st) (fst kv) = Some (snd kv)" by simp
    with \<open>\<And>k. map_of (cache st) k = None\<close> show ?thesis by simp
  qed
qed

text \<open>
  C8. In every state that calls of the interface can reach from the start: if the
  gazetteer is not loaded and the attempt to load it fails, geocode returns none for
  every input string and leaves the cache as it was, which is empty; and every value the
  cache holds has been computed by the loop over the parts against the loaded gazetteer.
  (The model has no exceptions on this path: the source touches neither the data nor the
  parser there.)
\<close>

theorem geocode_data_unavailable:
  "(data (run P calls (start ls)) = None \<and> nextLoadFails (run P calls (start ls))
      \<longrightarrow> fst (geocode P raw (run P calls (start ls))) = None
        \<and> cache (snd (geocode P raw (run P calls (start ls)))) = cache (run P calls (start ls))
        \<and> cache (run P calls (start ls)) = []
        \<and> data (snd (geocode P raw (run P calls (start ls)))) = None)
   \<and> cachedFromData P (run P calls (start ls))"
proof (intro conjI impI)
  let ?st = "run P calls (start ls)"
  show inv: "cachedFromData P ?st" by (rule cachedFromData_run)
  assume a: "data ?st = None \<and> nextLoadFails ?st"
  then have e: "cache ?st = []" using cache_empty_without_data[OF inv] by simp
  from a have d: "data (init ?st) = None" by (simp add: init_fails)
  have g: "geocode P raw ?st = (None, ?st) \<or> geocode P raw ?st = (None, init ?st)"
    by (cases rule: geocode_cases[where raw=raw and P=P and st="?st"]) (simp_all add: e d)
  show "fst (geocode P raw ?st) = None" using g by auto
  show "cache (snd (geocode P raw ?st)) = cache ?st" using g by (auto simp: init_cache)
  show "cache ?st = []" by (rule e)
  show "data (snd (geocode P raw ?st)) = None" using g a d by auto
qed


theorem geocode_data_unavailable_witness:
  "data (run asciiPlatform [Geocode (js ''UK''), GeocodeBatch [js ''CA'']] (start [None, None, None])) = None
   \<and> nextLoadFails (run asciiPlatform [Geocode (js ''UK''), GeocodeBatch [js ''CA'']] (start [None, None, None]))
   \<and> fst (geocode asciiPlatform (js ''California'')
            (run asciiPlatform [Geocode (js ''UK''), GeocodeBatch [js ''CA'']] (start [None, None, None]))) = None
   \<and> cache (snd (geocode asciiPlatform (js ''California'')
            (run asciiPlatform [Geocode (js ''UK''), GeocodeBatch [js ''CA'']] (start [None, None, None])))) = []
   \<and> map_of (cache (run asciiPlatform [Geocode (js ''Ontario'')] (start [Some sampleData]))) (js ''ontario'')
       = Some (Some \<lparr> lat = 51.2538, lng = -85.3232, name = js ''Ontario, Canada'',
                        displayName = js ''Ontario'' \<rparr>)
   \<and> (\<exists>raw parsed. normalize asciiPlatform raw = js ''ontario'' \<and> parseLocation raw = Some parsed
         \<and> Some \<lparr> lat = 51.2538, lng = -85.3232, name = js ''Ontario, Canada'',
                    displayName = js ''Ontario'' \<rparr>
             = resolveParts asciiPlatform (Some sampleData) (parts parsed))"
proof -
  let ?P = asciiPlatform
  let ?calls = "[Geocode (js ''UK''), GeocodeBatch [js ''CA'']]"
  let ?st = "run ?P ?calls (start [None, None, None])"
  let ?st2 = "run ?P [Geocode (js ''Ontario'')] (start [Some sampleData])"
  let ?ont = "\<lparr> lat = 51.2538, lng = -85.3232, name = js ''Ontario, Canada'',
                  displayName = js ''Ontario'' \<rparr>"
  have h: "data ?st = None \<and> nextLoadFails ?st" by code_simp
  have m: "map_of (cache ?st2) (js ''ontario'') = Some (Some ?ont)" by code_simp
  have d: "data ?st2 = Some sampleData" by code_simp
  have 1: "fst (geocode ?P (js ''California'') ?st) = None
        \<and> cache (snd (geocode ?P (js ''California'') ?st)) = cache ?st \<and> cache ?st = []"
    using geocode_data_unavailable[of ?P ?calls "[None, None, None]" "js ''California''"] h
    by blast
  have "cachedFromData ?P ?st2"
    using geocode_data_unavailable[of ?P "[Geocode (js ''Ontario'')]" "[Some sampleData]"]
    by blast
  then have 2: "\<exists>raw parsed. normalize ?P raw = js ''ontario'' \<and> parseLocation raw = Some parsed
         \<and> Some ?ont = resolveParts ?P (Some sampleData) (parts parsed)"
    using m d unfolding cachedFromData_def by fastforce
  show ?thesis using h m 1 2 by simp
qed

lemma geocode_hit:
  "raw \<noteq> [] \<Longrightarrow> map_of (cache st) (normalize P raw) = Some v \<Longrightarrow> geocode P raw st = (v, st)"
  by (simp add: geocode_def)

lemma init_phases: "init st = (if data st = None then initSettle st else st)"
  by (cases "loads st") (auto simp: init_def initSettle_def split: option.splits)

lemma geocode_phases:
  "geocode P raw st =
     (case geocodeBegin P raw st of
        Finished r \<Rightarrow> (r, st)
      | AwaitingInit fetching \<Rightarrow> geocodeResume P raw fetching st)"
proof (cases "raw = []")
  case True
  then show ?thesis by (simp add: geocode_def geocodeBegin_def)
next
  case False
  show ?thesis
  proof (cases "map_of (cache st) (normalize P raw)")
    case (Some v)
    then show ?thesis using False by (simp add: geocode_def geocodeBegin_def)
  next
    case None
    then show ?thesis using False
      by (simp add: geocode_def geocodeBegin_def geocodeResume_def init_phases Let_def)
  qed
qed

text \<open>
  C3, as the code has it, for calls that do not overlap: each call has returned before
  the next one begins, so that a call is \<open>geocode\<close> and a sequence of calls is \<open>run\<close>. Take
  two such calls of geocode with non-empty raw inputs that normalize identically, with
  any calls but clearCache between them. If after the first call the cache holds an
  entry for the key, the second call returns the value the first call returned, a cached
  none included, and leaves the state as it is: the loop over the parts does not run
  again. The first call leaves an entry exactly when it found one or when the gazetteer
  is loaded and the input has at least one part; a call that returns none before that
  stores nothing. In every state reached by calls that do not overlap the loop has run
  at most once for each key since the cache was last cleared. A call that nothing
  interrupts is the part before \<^verbatim>\<open>await init()\<close> followed at once by the part after it.
\<close>

theorem geocode_cache_consistent:
  "(raw1 \<noteq> [] \<and> raw2 \<noteq> [] \<and> normalize P raw1 = normalize P raw2 \<and> ClearCache \<notin> set calls
      \<and> map_of (cache (snd (geocode P raw1 st))) (normalize P raw1) \<noteq> None
    \<longrightarrow> geocode P raw2 (run P calls (snd (geocode P raw1 st)))
          = (fst (geocode P raw1 st), run P calls (snd (geocode P raw1 st))))
   \<and> (raw1 \<noteq> [] \<longrightarrow>
        (map_of (cache (snd (geocode P raw1 st))) (normalize P raw1) \<noteq> None
           \<longleftrightarrow> map_of (cache st) (normalize P raw1) \<noteq> None
               \<or> (data (init st) \<noteq> None \<and> parseLocation raw1 \<noteq> None)))
   \<and> distinct (resolverRuns (run P calls' (start ls)))
   \<and> geocode P raw1 st =
       (case geocodeBegin P raw1 st of
          Finished r \<Rightarrow> (r, st)
        | AwaitingInit fetching \<Rightarrow> geocodeResume P raw1 fetching st)"
proof (intro conjI impI)
  assume a: "raw1 \<noteq> [] \<and> raw2 \<noteq> [] \<and> normalize P raw1 = normalize P raw2
      \<and> ClearCache \<notin> set calls
      \<and> map_of (cache (snd (geocode P raw1 st))) (normalize P raw1) \<noteq> None"
  let ?k = "normalize P raw1" and ?s1 = "snd (geocode P raw1 st)"
  from a obtain v where v: "map_of (cache ?s1) ?k = Some v" by auto
  have r1: "fst (geocode P raw1 st) = v"
  proof (cases rule: geocode_cases[where raw=raw1 and P=P and st=st])
    case empty
    then show ?thesis using a by simp
  next
    case (hit w)
    then show ?thesis using v by simp
  next
    case nodata
    then show ?thesis using v by (simp add: init_cache)
  next
    case (noparts d)
    then show ?thesis using v by (simp add: init_cache)
  next
    case (resolved d parsed)
    then show ?thesis using v by (simp add: update_conv')
  qed
  have "map_of (cache (run P calls ?s1)) ?k = Some v"
    using v a by (intro cache_kept_run) simp_all
  moreover have "?k = normalize P raw2" "raw2 \<noteq> []" using a by simp_all
  ultimately have "geocode P raw2 (run P calls ?s1) = (v, run P calls ?s1)"
    by (intro geocode_hit) simp_all
  then show "geocode P raw2 (run P calls ?s1) = (fst (geocode P raw1 st), run P calls ?s1)"
    using r1 by simp
next
  assume ne: "raw1 \<noteq> []"
  show "map_of (cache (snd (geocode P raw1 st))) (normalize P raw1) \<noteq> None
           \<longleftrightarrow> map_of (cache st) (normalize P raw1) \<noteq> None
               \<or> (data (init st) \<noteq> None \<and> parseLocation raw1 \<noteq> None)"
    by (cases rule: geocode_cases[where raw=raw1 and P=P and st=st])
       (simp_all add: ne init_cache update_conv')
next
  show "distinct (resolverRuns (run P calls' (start ls)))"
    using runsCached_run[of P calls' ls] by (simp add: runsCached_def)
next
  show "geocode P raw1 st =
       (case geocodeBegin P raw1 st of
          Finished r \<Rightarrow> (r, st)
        | AwaitingInit fetching \<Rightarrow> geocodeResume P raw1 fetching st)"
    by (rule geocode_phases)
qed

theorem geocode_cache_consistent_witness:
  "js ''CA'' \<noteq> [] \<and> js '' ca. '' \<noteq> []
   \<and> normalize asciiPlatform (js ''CA'') = normalize asciiPlatform (js '' ca. '')
   \<and> ClearCache \<notin> set [Geocode (js ''Ontario''), Init]
   \<and> map_of (cache (snd (geocode asciiPlatform (js ''CA'') (start [Some sampleData]))))
        (normalize asciiPlatform (js ''CA'')) \<noteq> None
   \<and> fst (geocode asciiPlatform (js ''CA'') (start [Some sampleData]))
       = Some \<lparr> lat = 36.7783, lng = -119.4179, name = js ''California, United States'',
                 displayName = js ''California'' \<rparr>
   \<and> geocode asciiPlatform (js '' ca. '')
        (run asciiPlatform [Geocode (js ''Ontario''), Init]
          (snd (geocode asciiPlatform (js ''CA'') (start [Some sampleData]))))
       = (Some \<lparr> lat = 36.7783, lng = -119.4179, name = js ''California, United States'',
                  displayName = js ''California'' \<rparr>,
          run asciiPlatform [Geocode (js ''Ontario''), Init]
            (snd (geocode asciiPlatform (js ''CA'') (start [Some sampleData]))))
   \<and> distinct (resolverRuns (run asciiPlatform [Geocode (js ''CA''), Geocode (js '' ca. '')]
                  (start [Some sampleData])))"
proof -
  let ?P = asciiPlatform
  let ?st = "start [Some sampleData]"
  let ?calls = "[Geocode (js ''Ontario''), Init]"
  have h: "js ''CA'' \<noteq> [] \<and> js '' ca. '' \<noteq> []
     \<and> normalize ?P (js ''CA'') = normalize ?P (js '' ca. '')
     \<and> ClearCache \<notin> set ?calls
     \<and> map_of (cache (snd (geocode ?P (js ''CA'') ?st))) (normalize ?P (js ''CA'')) \<noteq> None"
    by code_simp
  have r: "fst (geocode ?P (js ''CA'') ?st)
       = Some \<lparr> lat = 36.7783, lng = -119.4179, name = js ''California, United States'',
                 displayName = js ''California'' \<rparr>"
    by code_simp
  have 1: "geocode ?P (js '' ca. '') (run ?P ?calls (snd (geocode ?P (js ''CA'') ?st)))
          = (fst (geocode ?P (js ''CA'') ?st), run ?P ?calls (snd (geocode ?P (js ''CA'') ?st)))"
    using geocode_cache_consistent[of "js ''CA''" "js '' ca. ''" ?P ?calls ?st] h by blast
  have 2: "distinct (resolverRuns (run ?P [Geocode (js ''CA''), Geocode (js '' ca. '')] ?st))"
    using geocode_cache_consistent[of _ _ ?P _ _ "[Geocode (js ''CA''), Geocode (js '' ca. '')]"
        "[Some sampleData]"]
    by blast
  have 3: "geocode ?P (js '' ca. '') (run ?P ?calls (snd (geocode ?P (js ''CA'') ?st)))
          = (Some \<lparr> lat = 36.7783, lng = -119.4179, name = js ''California, United States'',
                  displayName = js ''California'' \<rparr>,
             run ?P ?calls (snd (geocode ?P (js ''CA'') ?st)))"
    using 1 unfolding r .
  show ?thesis using h r 3 2 by blast
qed

text \<open>
  Two pairs of calls with inputs that normalize identically and results that differ.
  \<^verbatim>\<open>",office"\<close> and \<^verbatim>\<open>"of-fi-ce"\<close> both have the key \<^verbatim>\<open>"office"\<close>; the first has no part
  left after stripping and returns none without an entry in the cache, the second has the
  part \<^verbatim>\<open>"fi"\<close> and resolves to Finland. And \<^verbatim>\<open>"CA"\<close> asked twice returns none while the
  gazetteer fails to load and California once it has loaded.

  Two calls that overlap, with the gazetteer loaded: \<^verbatim>\<open>"C-A"\<close> and \<^verbatim>\<open>"CA"\<close> both have the
  key \<^verbatim>\<open>"ca"\<close>, both begin before either goes on, and both miss the cache. Then the loop
  runs twice for the key; the first call returns none and the second California, which
  replaces the none in the cache. Called one after the other, the second call returns the
  cached none and the loop runs once. The same input asked twice in overlapping calls
  makes the loop run twice as well, also when both calls start a fetch.
\<close>

theorem geocode_cache_counterexample:
  "normalize asciiPlatform (js '',office'') = normalize asciiPlatform (js ''of-fi-ce'')
   \<and> fst (geocode asciiPlatform (js '',office'') (start [Some sampleData])) = None
   \<and> fst (geocode asciiPlatform (js ''of-fi-ce'')
            (snd (geocode asciiPlatform (js '',office'') (start [Some sampleData]))))
       = Some \<lparr> lat = 61.9241, lng = 25.7482, name = js ''Finland'', displayName = js ''Finland'' \<rparr>
   \<and> fst (geocode asciiPlatform (js ''CA'') (start [None, Some sampleData])) = None
   \<and> fst (geocode asciiPlatform (js ''CA'')
            (snd (geocode asciiPlatform (js ''CA'') (start [None, Some sampleData]))))
       = Some \<lparr> lat = 36.7783, lng = -119.4179, name = js ''California, United States'',
                 displayName = js ''California'' \<rparr>
   \<and> normalize asciiPlatform (js ''C-A'') = normalize asciiPlatform (js ''CA'')
   \<and> geocodeBegin asciiPlatform (js ''C-A'') (init (start [Some sampleData])) = AwaitingInit False
   \<and> geocodeBegin asciiPlatform (js ''CA'') (init (start [Some sampleData])) = AwaitingInit False
   \<and> fst (geocodeResume asciiPlatform (js ''C-A'') False (init (start [Some sampleData]))) = None
   \<and> fst (geocodeResume asciiPlatform (js ''CA'') False
            (snd (geocodeResume asciiPlatform (js ''C-A'') False (init (start [Some sampleData])))))
       = Some \<lparr> lat = 36.7783, lng = -119.4179, name = js ''California, United States'',
                 displayName = js ''California'' \<rparr>
   \<and> resolverRuns (snd (geocodeResume asciiPlatform (js ''CA'') False
            (snd (geocodeResume asciiPlatform (js ''C-A'') False (init (start [Some sampleData]))))))
       = [js ''ca'', js ''ca'']
   \<and> fst (geocode asciiPlatform (js ''C-A'') (init (start [Some sampleData]))) = None
   \<and> fst (geocode asciiPlatform (js ''CA'')
            (snd (geocode asciiPlatform (js ''C-A'') (init (start [Some sampleData]))))) = None
   \<and> resolverRuns (snd (geocode asciiPlatform (js ''CA'')
            (snd (geocode asciiPlatform (js ''C-A'') (init (start [Some sampleData]))))))
       = [js ''ca'']
   \<and> geocodeBegin asciiPlatform (js ''CA'') (start [Some sampleData, Some sampleData])
       = AwaitingInit True
   \<and> resolverRuns (snd (geocodeResume asciiPlatform (js ''CA'') True
            (snd (geocodeResume asciiPlatform (js ''CA'') True
                   (start [Some sampleData, Some sampleData])))))
       = [js ''ca'', js ''ca'']"
  by code_simp

section \<open>Batch resolution\<close>

lemma distinct_uniq: "distinct (uniq xs)"
  by (simp add: uniq_def)

lemma set_uniq: "set (uniq xs) = set xs"
  by (simp add: uniq_def)

lemma batchLoop_other:
  "loc \<notin> set ls \<Longrightarrow> map_of (fst (batchLoop P ls results st)) loc = map_of results loc"
proof (induction ls arbitrary: results st)
  case Nil
  then show ?case by simp
next
  case (Cons l ls)
  then have "l \<noteq> loc" "loc \<notin> set ls" by auto
  then show ?case
    using Cons.IH by (simp add: update_conv' split: prod.splits option.splits)
qed

lemma batchLoop_lookup:
  "distinct (pre @ loc # post) \<Longrightarrow>
   map_of (fst (batchLoop P (pre @ loc # post) results st)) loc =
     (case fst (geocode P loc (fold (\<lambda>l s. snd (geocode P l s)) pre st)) of
        Some r \<Rightarrow> Some (Some r)
      | None \<Rightarrow> map_of results loc)"
proof (induction pre arbitrary: results st)
  case Nil
  then have "loc \<notin> set post" by simp
  then show ?case
    by (simp add: batchLoop_other update_conv' split: prod.splits option.splits)
next
  case (Cons p pre)
  then have d: "distinct (pre @ loc # post)" and ne: "p \<noteq> loc" by auto
  show ?case
    using Cons.IH[OF d] ne
    by (simp add: update_conv' split: prod.splits option.splits)
qed

lemma batchLoop_no_null:
  "(\<And>k. map_of results k \<noteq> Some None) \<Longrightarrow> map_of (fst (batchLoop P ls results st)) k \<noteq> Some None"
proof (induction ls arbitrary: results st)
  case Nil
  then show ?case by simp
next
  case (Cons l ls)
  obtain coords st' where g: "geocode P l st = (coords, st')" by (cases "geocode P l st")
  let ?res = "case coords of Some r \<Rightarrow> AList.update l (Some r) results | None \<Rightarrow> results"
  have "map_of ?res k' \<noteq> Some None" for k'
    using Cons.prems by (cases coords) (auto simp: update_conv')
  then have "map_of (fst (batchLoop P ls ?res st')) k \<noteq> Some None"
    by (rule Cons.IH)
  then show ?case using g by simp
qed

text \<open>
  C7. geocodeBatch drops the empty strings and the repetitions of its input and calls
  geocode once for each string that is left, in the order of first occurrence. The
  mapping it returns has an entry for a string exactly when that call returned a result,
  and the entry is that result; a string whose call returned none, and any other string,
  has no entry; no entry holds none.
\<close>

theorem geocodeBatch_results:
  "distinct (uniq (filter (\<lambda>l. l \<noteq> []) locations))
   \<and> set (uniq (filter (\<lambda>l. l \<noteq> []) locations)) = {l \<in> set locations. l \<noteq> []}
   \<and> snd (geocodeBatch P locations st)
       = fold (\<lambda>l s. snd (geocode P l s)) (uniq (filter (\<lambda>l. l \<noteq> []) locations)) (init st)
   \<and> (uniq (filter (\<lambda>l. l \<noteq> []) locations) = pre @ loc # post \<longrightarrow>
        map_of (fst (geocodeBatch P locations st)) loc
          = map_option Some (fst (geocode P loc (fold (\<lambda>l s. snd (geocode P l s)) pre (init st)))))
   \<and> (loc' \<notin> {l \<in> set locations. l \<noteq> []} \<longrightarrow> map_of (fst (geocodeBatch P locations st)) loc' = None)
   \<and> map_of (fst (geocodeBatch P locations st)) k \<noteq> Some None"
proof (intro conjI impI)
  let ?u = "uniq (filter (\<lambda>l. l \<noteq> []) locations)"
  show d: "distinct ?u" by (rule distinct_uniq)
  show s: "set ?u = {l \<in> set locations. l \<noteq> []}" by (auto simp: set_uniq)
  show "snd (geocodeBatch P locations st) = fold (\<lambda>l s. snd (geocode P l s)) ?u (init st)"
    by (simp add: geocodeBatch_def batchLoop_state)
  show "map_of (fst (geocodeBatch P locations st)) k \<noteq> Some None"
    unfolding geocodeBatch_def by (rule batchLoop_no_null) simp
  {
    assume u: "?u = pre @ loc # post"
    then have "distinct (pre @ loc # post)" using d by simp
    from batchLoop_lookup[OF this, of P "[]" "init st"]
    show "map_of (fst (geocodeBatch P locations st)) loc
          = map_option Some (fst (geocode P loc (fold (\<lambda>l s. snd (geocode P l s)) pre (init st))))"
      unfolding geocodeBatch_def u by (simp split: option.splits)
  }
  {
    assume "loc' \<notin> {l \<in> set locations. l \<noteq> []}"
    then have "loc' \<notin> set ?u" using s by simp
    then show "map_of (fst (geocodeBatch P locations st)) loc' = None"
      unfolding geocodeBatch_def by (simp add: batchLoop_other)
  }
qed

theorem geocodeBatch_results_witness:
  "uniq (filter (\<lambda>l. l \<noteq> []) [js ''CA'', js ''Atlantis'', js ''CA'', [], js ''Remote - Argentina''])
     = [js ''CA''] @ js ''Atlantis'' # [js ''Remote - Argentina'']
   \<and> fst (geocode asciiPlatform (js ''Atlantis'')
        (fold (\<lambda>l s. snd (geocode asciiPlatform l s)) [js ''CA''] (init (start [Some sampleData])))) = None
   \<and> map_of (fst (geocodeBatch asciiPlatform
        [js ''CA'', js ''Atlantis'', js ''CA'', [], js ''Remote - Argentina''] (start [Some sampleData])))
        (js ''Atlantis'') = None
   \<and> map_of (fst (geocodeBatch asciiPlatform
        [js ''CA'', js ''Atlantis'', js ''CA'', [], js ''Remote - Argentina''] (start [Some sampleData])))
        (js ''Remote - Argentina'')
       = Some (Some \<lparr> lat = -38.4161, lng = -63.6167, name = js ''Argentina'',
                       displayName = js ''Argentina'' \<rparr>)
   \<and> map_of (fst (geocodeBatch asciiPlatform
        [js ''CA'', js ''Atlantis'', js ''CA'', [], js ''Remote - Argentina''] (start [Some sampleData])))
        (js ''Ontario'') = None"
proof -
  let ?P = asciiPlatform and ?st = "start [Some sampleData]"
  let ?ls = "[js ''CA'', js ''Atlantis'', js ''CA'', [], js ''Remote - Argentina'']"
  let ?g = "\<lambda>l s. snd (geocode ?P l s)"
  have u: "uniq (filter (\<lambda>l. l \<noteq> []) ?ls) = [js ''CA''] @ js ''Atlantis'' # [js ''Remote - Argentina'']"
    by code_simp
  have u2: "uniq (filter (\<lambda>l. l \<noteq> []) ?ls) = [js ''CA'', js ''Atlantis''] @ js ''Remote - Argentina'' # []"
    by code_simp
  have n: "fst (geocode ?P (js ''Atlantis'') (fold ?g [js ''CA''] (init ?st))) = None"
    by code_simp
  have a: "fst (geocode ?P (js ''Remote - Argentina'') (fold ?g [js ''CA'', js ''Atlantis''] (init ?st)))
      = Some \<lparr> lat = -38.4161, lng = -63.6167, name = js ''Argentina'', displayName = js ''Argentina'' \<rparr>"
    by code_simp
  have o: "js ''Ontario'' \<notin> {l \<in> set ?ls. l \<noteq> []}"
    by (simp add: js_def)
  have 1: "map_of (fst (geocodeBatch ?P ?ls ?st)) (js ''Atlantis'')
      = map_option Some (fst (geocode ?P (js ''Atlantis'') (fold ?g [js ''CA''] (init ?st))))"
    using geocodeBatch_results[of ?ls ?P ?st "[js ''CA'']" "js ''Atlantis''" "[js ''Remote - Argentina'']"] u
    by blast
  have 2: "map_of (fst (geocodeBatch ?P ?ls ?st)) (js ''Remote - Argentina'')
      = map_option Some (fst (geocode ?P (js ''Remote - Argentina'')
           (fold ?g [js ''CA'', js ''Atlantis''] (init ?st))))"
    using geocodeBatch_results[of ?ls ?P ?st "[js ''CA'', js ''Atlantis'']" "js ''Remote - Argentina''" "[]"] u2
    by blast
  have 3: "map_of (fst (geocodeBatch ?P ?ls ?st)) (js ''Ontario'') = None"
    using geocodeBatch_results[of ?ls ?P ?st _ _ _ "js ''Ontario''"] o by blast
  show ?thesis
    using u n 1 2 3 unfolding n a by simp
qed

section \<open>Properties of the grouping\<close>























section \<open>The phrase-removal rules\<close>

lemma rxMatch_noBol: "Bol \<notin> set p \<Longrightarrow> rxMatch p b s = rxMatch p False s"
proof (induction p b s rule: rxMatch.induct)
  case (1 atStart s)
  then show ?case by simp
next
  case (2 r atStart s)
  then show ?case by simp
next
  case (3 r atStart s)
  then show ?case by simp
next
  case (4 w r atStart s)
  then show ?case by simp
next
  case (5 r atStart s)
  then show ?case by (simp split: list.splits option.splits)
next
  case (6 r atStart s)
  let ?L = "rev [0..<Suc (length (takeWhile isWhiteSpace s))]"
  have nb: "Bol \<notin> set r" using "6.prems" by simp
  have eq: "rxMatch r (atStart \<and> k = 0) (drop k s) = rxMatch r False (drop k s)"
    if "k \<in> set ?L" for k
    using "6.IH"[OF that nb] .
  have m: "map (\<lambda>k. rxMatch r (atStart \<and> k = 0) (drop k s)) ?L
        = map (\<lambda>k. rxMatch r False (drop k s)) ?L"
    by (rule map_cong[OF refl]) (rule eq)
  have f: "(\<lambda>k. rxMatch r (False \<and> k = 0) (drop k s)) = (\<lambda>k. rxMatch r False (drop k s))"
    by simp
  show ?case unfolding rxMatch.simps m f ..
qed

lemma firstSome_head: "\<forall>x\<in>set xs. x = None \<Longrightarrow> firstSome (x # xs) = x"
  by (cases x) (simp_all add: firstSome_None)

lemma firstSome_exists: "firstSome xs \<noteq> None \<longleftrightarrow> (\<exists>x\<in>set xs. x \<noteq> None)"
  by (induction xs rule: firstSome.induct) auto

lemma drop_takeWhile_hd:
  assumes "k < length (takeWhile P s)"
  shows "drop k s \<noteq> [] \<and> P (hd (drop k s))"
proof -
  have k: "k < length s" using assms length_takeWhile_le[of P s] by simp
  have "takeWhile P s ! k = s ! k" using assms by (rule takeWhile_nth)
  moreover have "P (takeWhile P s ! k)" using assms by (meson nth_mem set_takeWhileD)
  ultimately show ?thesis using k by (simp add: hd_drop_conv_nth)
qed

text \<open>
  \<^verbatim>\<open>\s*\<close> before something that cannot begin with white space: the whole run is
  consumed, no shorter run can succeed.
\<close>

lemma rxMatch_WsStar:
  assumes "\<And>b t. t \<noteq> [] \<Longrightarrow> isWhiteSpace (hd t) \<Longrightarrow> rxMatch r b t = None"
  shows "rxMatch (WsStar # r) b s
         = rxMatch r (b \<and> takeWhile isWhiteSpace s = []) (dropWhile isWhiteSpace s)"
proof -
  let ?n = "length (takeWhile isWhiteSpace s)"
  let ?f = "\<lambda>k. rxMatch r (b \<and> k = 0) (drop k s)"
  have "\<forall>x\<in>set (map ?f (rev [0..<?n])). x = None"
    using assms drop_takeWhile_hd[of _ isWhiteSpace s] by auto
  then have "firstSome (?f ?n # map ?f (rev [0..<?n])) = ?f ?n" by (rule firstSome_head)
  moreover have "drop ?n s = dropWhile isWhiteSpace s" by (simp add: dropWhile_eq_drop)
  ultimately show ?thesis by simp
qed

lemma ciPrefix_letter:
  assumes "isWord w" "ciPrefix w t"
  shows "t \<noteq> [] \<and> \<not> isWhiteSpace (hd t) \<and> hd t \<noteq> 45 \<and> \<not> isDelim (hd t) \<and> hd t \<noteq> 32"
proof -
  from assms(1) obtain p ps where w: "w = p # ps" "97 \<le> p \<and> p \<le> 122"
    by (cases w) (auto simp: isWord_def)
  with assms(2) obtain c cs where t: "t = c # cs" "canonicalize p = canonicalize c"
    by (cases t) auto
  then show ?thesis using w(2)
    by (auto simp: canonicalize_def isWhiteSpace_def isDelim_def split: if_splits)
qed

lemma Lit_fails_at_space:
  assumes "isWord w" "t \<noteq> []" "isWhiteSpace (hd t)"
  shows "rxMatch (Lit w # r) b t = None"
  using ciPrefix_letter[OF assms(1), of t] assms(2,3) by auto

lemma rxMatch_WsStar_Lit:
  assumes "isWord w" "Bol \<notin> set r"
  shows "rxMatch (WsStar # Lit w # r) b s = rxMatch (Lit w # r) False (dropWhile isWhiteSpace s)"
proof -
  have "rxMatch (WsStar # Lit w # r) b s
        = rxMatch (Lit w # r) (b \<and> takeWhile isWhiteSpace s = []) (dropWhile isWhiteSpace s)"
    by (rule rxMatch_WsStar) (rule Lit_fails_at_space[OF assms(1)])
  also have "\<dots> = rxMatch (Lit w # r) False (dropWhile isWhiteSpace s)"
    using assms(2) by (intro rxMatch_noBol) simp
  finally show ?thesis .
qed

lemma rxMatch_WsStar_end: "rxMatch [WsStar] b s = Some (dropWhile isWhiteSpace s)"
  by (simp add: dropWhile_eq_drop)

lemma rxMatch_WsStar_Eol:
  "rxMatch [WsStar, Eol] b s = (if list_all isWhiteSpace s then Some [] else None)"
proof -
  have "rxMatch [WsStar, Eol] b s
        = rxMatch [Eol] (b \<and> takeWhile isWhiteSpace s = []) (dropWhile isWhiteSpace s)"
    by (rule rxMatch_WsStar) simp
  then show ?thesis by (simp add: list_all_iff)
qed

lemma rxMatch_separators:
  "set r \<subseteq> {WsStar, OptHyphen} \<Longrightarrow> rxMatch r b s \<noteq> None"
proof (induction r arbitrary: b s)
  case Nil
  then show ?case by simp
next
  case (Cons a r)
  then have ih: "\<And>b s. rxMatch r b s \<noteq> None" by simp
  from Cons.prems consider "a = WsStar" | "a = OptHyphen" by auto
  then show ?case
  proof cases
    case 1
    have "rxMatch r (b \<and> (0::nat) = 0) (drop 0 s) \<noteq> None" using ih by blast
    then have "\<exists>x\<in>set (map (\<lambda>k. rxMatch r (b \<and> k = 0) (drop k s))
                          (rev [0..<Suc (length (takeWhile isWhiteSpace s))])). x \<noteq> None"
      by (intro bexI[where x="rxMatch r (b \<and> (0::nat) = 0) (drop 0 s)"]) (simp, force)
    then show ?thesis unfolding 1 rxMatch.simps firstSome_exists .
  next
    case 2
    then show ?thesis using ih by (simp split: list.splits option.splits)
  qed
qed

declare replaceAll.simps [simp del]

lemma replaceAll_match:
  "rxMatch p b s = Some rest \<Longrightarrow> length rest < length s
     \<Longrightarrow> replaceAll p b s = 32 # replaceAll p False rest"
  by (subst replaceAll.simps) simp

lemma replaceAll_nomatch:
  "rxMatch p b (c # cs) = None \<Longrightarrow> replaceAll p b (c # cs) = c # replaceAll p False cs"
  by (subst replaceAll.simps) simp

lemma replaceAll_Nil: "rxMatch p b [] = None \<Longrightarrow> replaceAll p b [] = []"
  by (subst replaceAll.simps) simp

lemma phraseRx_simps:
  "phraseRx [] = []" "phraseRx (w # ws) = Lit w # WsStar # phraseRx ws"
  by (simp_all add: phraseRx_def)

lemma phraseRx_noBol: "Bol \<notin> set (phraseRx ws)"
  by (induction ws) (simp_all add: phraseRx_simps)

lemma firstSome_single: "firstSome [x] = x"
  by (cases x) simp_all

lemma rxMatch_WsStar_nonspace:
  "s = [] \<or> \<not> isWhiteSpace (hd s) \<Longrightarrow> rxMatch (WsStar # r) b s = rxMatch r b s"
proof -
  assume "s = [] \<or> \<not> isWhiteSpace (hd s)"
  then have "takeWhile isWhiteSpace s = []" by (cases s) auto
  then show ?thesis by (simp add: firstSome_single)
qed

lemma rxMatch_OptHyphen_other:
  "s = [] \<or> hd s \<noteq> 45 \<Longrightarrow> rxMatch (OptHyphen # r) b s = rxMatch r b s"
  by (cases s) auto

lemma rxMatch_Lit_step:
  "rxMatch (Lit w # r) b s
     = (if ciPrefix w s then rxMatch r (b \<and> w = []) (drop (length w) s) else None)"
  by simp

declare rxMatch.simps [simp del]

lemma phraseRx_match:
  "ws \<noteq> [] \<Longrightarrow> list_all isWord ws \<Longrightarrow> rxMatch (phraseRx ws) b t \<noteq> None \<longleftrightarrow> phraseAt ws t"
proof (induction ws t arbitrary: b rule: phraseAt.induct)
  case (1 s)
  then show ?case by simp
next
  case (2 w s)
  have "rxMatch (phraseRx [w]) b s
        = (if ciPrefix w s then Some (dropWhile isWhiteSpace (drop (length w) s)) else None)"
    by (simp add: phraseRx_simps rxMatch_Lit_step rxMatch_WsStar_end)
  then show ?case by simp
next
  case (3 w v ws s)
  have v: "isWord v" and vs: "list_all isWord (v # ws)" using "3.prems" by simp_all
  have nb: "Bol \<notin> set (WsStar # phraseRx ws)" using phraseRx_noBol by simp
  have "rxMatch (phraseRx (w # v # ws)) b s
        = (if ciPrefix w s
           then rxMatch (WsStar # Lit v # WsStar # phraseRx ws) (b \<and> w = []) (drop (length w) s)
           else None)"
    by (simp add: phraseRx_simps rxMatch_Lit_step)
  also have "\<dots> = (if ciPrefix w s
           then rxMatch (phraseRx (v # ws)) False (dropWhile isWhiteSpace (drop (length w) s))
           else None)"
    by (simp only: rxMatch_WsStar_Lit[OF v nb] phraseRx_simps)
  finally have "rxMatch (phraseRx (w # v # ws)) b s \<noteq> None
      \<longleftrightarrow> ciPrefix w s
          \<and> rxMatch (phraseRx (v # ws)) False (dropWhile isWhiteSpace (drop (length w) s)) \<noteq> None"
    by simp
  also have "\<dots> \<longleftrightarrow> ciPrefix w s \<and> phraseAt (v # ws) (dropWhile isWhiteSpace (drop (length w) s))"
    using "3.IH"[OF _ vs, of False] by simp
  finally show ?case by simp
qed

text \<open>An item that may match the empty string passes the match on to a later position.\<close>

lemma rxMatch_skip_item:
  assumes "rxMatch (a # r) b s = Some rest" "a = WsStar \<or> a = OptHyphen"
  shows "\<exists>t b'. suffix t s \<and> rxMatch r b' t = Some rest"
proof -
  from assms(2) consider "a = WsStar" | "a = OptHyphen" by blast
  then show ?thesis
  proof cases
    case 1
    with assms(1) have "\<exists>k\<in>set (rev [0..<Suc (length (takeWhile isWhiteSpace s))]).
        rxMatch r (b \<and> k = 0) (drop k s) = Some rest"
      by (simp only: rxMatch.simps) (rule firstSome_map)
    then show ?thesis using suffix_drop by blast
  next
    case 2
    show ?thesis
    proof (cases s)
      case Nil
      with assms(1) 2 show ?thesis by (auto simp: rxMatch.simps)
    next
      case (Cons c cs)
      show ?thesis
      proof (cases "c = 45 \<and> rxMatch r False cs \<noteq> None")
        case True
        with assms(1) 2 Cons have "rxMatch r False cs = Some rest" by (auto simp: rxMatch.simps)
        moreover have "suffix cs s" using Cons by (simp add: suffix_Cons)
        ultimately show ?thesis by blast
      next
        case False
        with assms(1) 2 Cons have "rxMatch r b s = Some rest"
          by (auto simp: rxMatch.simps split: if_splits option.splits)
        then show ?thesis by blast
      qed
    qed
  qed
qed

lemma rxMatch_rule_suffix:
  assumes "rxMatch (WsStar # OptHyphen # WsStar # r) b s = Some rest" "Bol \<notin> set r"
  shows "\<exists>t. suffix t s \<and> rxMatch r False t = Some rest"
proof -
  from rxMatch_skip_item[OF assms(1)] obtain t1 b1 where
    1: "suffix t1 s" "rxMatch (OptHyphen # WsStar # r) b1 t1 = Some rest" by blast
  from rxMatch_skip_item[OF 1(2)] obtain t2 b2 where
    2: "suffix t2 t1" "rxMatch (WsStar # r) b2 t2 = Some rest" by blast
  from rxMatch_skip_item[OF 2(2)] obtain t3 b3 where
    3: "suffix t3 t2" "rxMatch r b3 t3 = Some rest" by blast
  have "suffix t3 s" using 1(1) 2(1) 3(1) suffix_order.trans by blast
  moreover have "rxMatch r False t3 = Some rest"
    using 3(2) rxMatch_noBol[OF assms(2)] by metis
  ultimately show ?thesis by blast
qed

lemma rxMatch_rule_at_word:
  assumes "isWord w" "ciPrefix w s" "Bol \<notin> set r"
  shows "rxMatch (WsStar # OptHyphen # WsStar # Lit w # r) b s = rxMatch (Lit w # r) False s"
proof -
  from ciPrefix_letter[OF assms(1,2)] have s: "s = [] \<or> \<not> isWhiteSpace (hd s)" "s = [] \<or> hd s \<noteq> 45"
    by simp_all
  have nb: "Bol \<notin> set (Lit w # r)" using assms(3) by simp
  have "rxMatch (WsStar # OptHyphen # WsStar # Lit w # r) b s = rxMatch (Lit w # r) b s"
    by (simp only: rxMatch_WsStar_nonspace[OF s(1)] rxMatch_OptHyphen_other[OF s(2)])
  then show ?thesis using rxMatch_noBol[OF nb] by simp
qed

lemma ciPrefix_length: "ciPrefix w u \<Longrightarrow> length w \<le> length u"
  by (induction w u rule: ciPrefix.induct) auto

lemma rxMatch_progress:
  assumes "rxMatch p b t = Some rest" "Lit w \<in> set p"
  shows "length rest + length w \<le> length t"
proof -
  from rxMatch_Lit[OF assms] obtain u where
    u: "suffix u t" "ciPrefix w u" "suffix rest (drop (length w) u)" by blast
  have "length rest \<le> length u - length w" using suffix_length_le[OF u(3)] by simp
  moreover have "length w \<le> length u" by (rule ciPrefix_length[OF u(2)])
  moreover have "length u \<le> length t" by (rule suffix_length_le[OF u(1)])
  ultimately show ?thesis by linarith
qed

lemma replaceAll_length:
  assumes prog: "\<And>b t rest. rxMatch p b t = Some rest \<Longrightarrow> length rest < length t"
  shows "length (replaceAll p b s) \<le> length s"
proof (induction s arbitrary: b rule: length_induct)
  case (1 s)
  show ?case
  proof (cases "rxMatch p b s")
    case None
    show ?thesis
    proof (cases s)
      case Nil
      then show ?thesis using None by (simp add: replaceAll_Nil)
    next
      case (Cons c cs)
      then have "length (replaceAll p False cs) \<le> length cs" using 1 by simp
      then show ?thesis using None Cons by (simp add: replaceAll_nomatch)
    qed
  next
    case (Some rest)
    then have lt: "length rest < length s" by (rule prog)
    then have "length (replaceAll p False rest) \<le> length rest" using 1 by simp
    then show ?thesis using lt by (simp add: replaceAll_match[OF Some lt])
  qed
qed

lemma replaceAll_shrinks:
  assumes prog: "\<And>b t rest. rxMatch p b t = Some rest \<Longrightarrow> length rest + 2 \<le> length t"
    and nb: "Bol \<notin> set p"
    and ex: "\<exists>t. suffix t s \<and> rxMatch p False t \<noteq> None"
  shows "length (replaceAll p b s) < length s"
  using ex
proof (induction s arbitrary: b)
  case Nil
  then have "rxMatch p False [] \<noteq> None" by simp
  then obtain rest where "rxMatch p False [] = Some rest" by auto
  from prog[OF this] show ?case by simp
next
  case (Cons c cs)
  have prog1: "\<And>b t rest. rxMatch p b t = Some rest \<Longrightarrow> length rest < length t"
    using prog by fastforce
  show ?case
  proof (cases "rxMatch p b (c # cs)")
    case None
    then have "rxMatch p False (c # cs) = None" using rxMatch_noBol[OF nb] by metis
    with Cons.prems have "\<exists>t. suffix t cs \<and> rxMatch p False t \<noteq> None"
      by (auto simp: suffix_Cons)
    from Cons.IH[OF this] show ?thesis by (simp add: replaceAll_nomatch[OF None])
  next
    case (Some rest)
    from prog[OF Some] have l: "length rest + 2 \<le> length (c # cs)" .
    then have lt: "length rest < length (c # cs)" by simp
    have "length (replaceAll p False rest) \<le> length rest"
      by (rule replaceAll_length[OF prog1])
    then show ?thesis using l by (simp add: replaceAll_match[OF Some lt])
  qed
qed

lemma replaceAll_changed_iff:
  assumes prog: "\<And>b t rest. rxMatch p b t = Some rest \<Longrightarrow> length rest + 2 \<le> length t"
    and nb: "Bol \<notin> set p"
  shows "replaceAll p b s \<noteq> s \<longleftrightarrow> (\<exists>t. suffix t s \<and> rxMatch p False t \<noteq> None)"
proof
  assume ch: "replaceAll p b s \<noteq> s"
  show "\<exists>t. suffix t s \<and> rxMatch p False t \<noteq> None"
  proof (rule ccontr)
    assume "\<not> (\<exists>t. suffix t s \<and> rxMatch p False t \<noteq> None)"
    then have "\<And>u b'. suffix u s \<Longrightarrow> rxMatch p b' u = None"
      using rxMatch_noBol[OF nb] by metis
    then have "replaceAll p b s = s" by (rule replaceAll_no_match)
    with ch show False by simp
  qed
next
  assume "\<exists>t. suffix t s \<and> rxMatch p False t \<noteq> None"
  from replaceAll_shrinks[OF prog nb this, where b=b] show "replaceAll p b s \<noteq> s" by auto
qed

lemma replaceAll_set:
  assumes prog: "\<And>b t rest. rxMatch p b t = Some rest \<Longrightarrow> length rest < length t"
  shows "set (replaceAll p b s) \<subseteq> set s \<union> {32}"
proof (induction s arbitrary: b rule: length_induct)
  case (1 s)
  show ?case
  proof (cases "rxMatch p b s")
    case None
    show ?thesis
    proof (cases s)
      case Nil
      then show ?thesis using None by (simp add: replaceAll_Nil)
    next
      case (Cons c cs)
      then have "set (replaceAll p False cs) \<subseteq> set cs \<union> {32}" using 1 by simp
      then show ?thesis using None Cons by (auto simp: replaceAll_nomatch)
    qed
  next
    case (Some rest)
    then have lt: "length rest < length s" by (rule prog)
    then have ih: "set (replaceAll p False rest) \<subseteq> set rest \<union> {32}" using 1 by simp
    have "set rest \<subseteq> set s" using rxMatch_suffix[OF Some] by (rule set_mono_suffix)
    then show ?thesis
      using ih by (auto simp: replaceAll_match[OF Some lt])
  qed
qed

lemma phraseAt_first: "phraseAt (w # ws) t \<Longrightarrow> ciPrefix w t"
  by (cases ws) simp_all

lemma rule_match_iff:
  assumes "ws \<noteq> []" "list_all isWord ws"
  shows "(\<exists>t. suffix t s \<and> rxMatch (WsStar # OptHyphen # WsStar # phraseRx ws) False t \<noteq> None)
         \<longleftrightarrow> (\<exists>t. suffix t s \<and> phraseAt ws t)"
proof
  assume "\<exists>t. suffix t s \<and> rxMatch (WsStar # OptHyphen # WsStar # phraseRx ws) False t \<noteq> None"
  then obtain t rest where t: "suffix t s"
      "rxMatch (WsStar # OptHyphen # WsStar # phraseRx ws) False t = Some rest" by auto
  from rxMatch_rule_suffix[OF t(2) phraseRx_noBol] obtain t' where
    t': "suffix t' t" "rxMatch (phraseRx ws) False t' = Some rest" by blast
  then have "phraseAt ws t'" using phraseRx_match[OF assms, of False t'] by simp
  moreover have "suffix t' s" using t(1) t'(1) suffix_order.trans by blast
  ultimately show "\<exists>t. suffix t s \<and> phraseAt ws t" by blast
next
  assume "\<exists>t. suffix t s \<and> phraseAt ws t"
  then obtain t where t: "suffix t s" "phraseAt ws t" by blast
  from assms obtain w ws' where ws: "ws = w # ws'" "isWord w" by (cases ws) auto
  have c: "ciPrefix w t" using t(2) ws(1) phraseAt_first by blast
  have "rxMatch (WsStar # OptHyphen # WsStar # Lit w # WsStar # phraseRx ws') False t
        = rxMatch (Lit w # WsStar # phraseRx ws') False t"
    by (rule rxMatch_rule_at_word[OF ws(2) c]) (simp add: phraseRx_noBol)
  moreover have "rxMatch (phraseRx ws) False t \<noteq> None"
    using phraseRx_match[OF assms, of False t] t(2) by simp
  ultimately have "rxMatch (WsStar # OptHyphen # WsStar # phraseRx ws) False t \<noteq> None"
    by (simp add: ws(1) phraseRx_simps)
  with t(1) show "\<exists>t. suffix t s \<and> rxMatch (WsStar # OptHyphen # WsStar # phraseRx ws) False t \<noteq> None"
    by blast
qed

lemma containsPhrase_iff: "containsPhrase ws s \<longleftrightarrow> (\<exists>t. suffix t s \<and> phraseAt ws t)"
  by (auto simp: containsPhrase_def list_ex_iff)

lemma isWord_length: "isWord w \<Longrightarrow> 1 \<le> length w"
  by (cases w) (simp_all add: isWord_def)

text \<open>
  A rule for a phrase changes a string exactly when the phrase stands somewhere in it.
\<close>

lemma phrase_rule_changes:
  assumes "ws \<noteq> []" "list_all isWord ws" "2 \<le> length (hd ws)"
  shows "replaceAll (WsStar # OptHyphen # WsStar # phraseRx ws) b s \<noteq> s \<longleftrightarrow> containsPhrase ws s"
proof -
  let ?p = "WsStar # OptHyphen # WsStar # phraseRx ws"
  from assms(1) obtain w ws' where ws: "ws = w # ws'" by (cases ws) auto
  have lit: "Lit w \<in> set ?p" by (simp add: ws phraseRx_simps)
  have prog: "length rest + 2 \<le> length t" if "rxMatch ?p b' t = Some rest" for b' t rest
    using rxMatch_progress[OF that lit] assms(3) ws by simp
  have nb: "Bol \<notin> set ?p" by (simp add: phraseRx_noBol)
  have "replaceAll ?p b s \<noteq> s \<longleftrightarrow> (\<exists>t. suffix t s \<and> rxMatch ?p False t \<noteq> None)"
    by (rule replaceAll_changed_iff) (erule prog, rule nb)
  then show ?thesis
    by (simp only: rule_match_iff[OF assms(1,2)] containsPhrase_iff)
qed

text \<open>Where the output of a replacement begins with a word, the input begins with it.\<close>

lemma replaceAll_prefix_word:
  assumes prog: "\<And>b t rest. rxMatch p b t = Some rest \<Longrightarrow> length rest < length t"
  shows "list_all (\<lambda>c. 97 \<le> c \<and> c \<le> 122) w \<Longrightarrow> ciPrefix w (replaceAll p b x) \<Longrightarrow> ciPrefix w x"
proof (induction w arbitrary: x b)
  case Nil
  then show ?case by simp
next
  case (Cons l w)
  have l: "97 \<le> l \<and> l \<le> 122" and w: "list_all (\<lambda>c. 97 \<le> c \<and> c \<le> 122) w"
    using Cons.prems(1) by simp_all
  have not32: "canonicalize l \<noteq> canonicalize 32" using l by (simp add: canonicalize_def)
  show ?case
  proof (cases "rxMatch p b x")
    case (Some rest)
    then have lt: "length rest < length x" by (rule prog)
    from Cons.prems(2) show ?thesis
      unfolding replaceAll_match[OF Some lt] using not32 by simp
  next
    case None
    show ?thesis
    proof (cases x)
      case Nil
      with None Cons.prems(2) show ?thesis by (simp add: replaceAll_Nil)
    next
      case (Cons c cs)
      with None Cons.prems(2) have "canonicalize l = canonicalize c"
          "ciPrefix w (replaceAll p False cs)"
        by (simp_all add: replaceAll_nomatch)
      then show ?thesis using Cons.IH[OF w] Cons by simp
    qed
  qed
qed

text \<open>After the rule for a single word, the word stands nowhere in the string.\<close>

lemma word_rule_removes:
  assumes w: "isWord w"
  shows "\<not> containsPhrase [w] (replaceAll [WsStar, OptHyphen, WsStar, Lit w, WsStar] b s)"
proof -
  let ?p = "[WsStar, OptHyphen, WsStar, Lit w, WsStar]"
  have letters: "list_all (\<lambda>c. 97 \<le> c \<and> c \<le> 122) w" using w by (simp add: isWord_def)
  have prog: "length rest < length t" if "rxMatch ?p b' t = Some rest" for b' t rest
    using rxMatch_progress[OF that, of w] isWord_length[OF w] by simp
  have at_word: "rxMatch ?p b' t \<noteq> None" if "ciPrefix w t" for b' t
  proof -
    have "rxMatch ?p b' t = rxMatch [Lit w, WsStar] False t"
      by (rule rxMatch_rule_at_word[OF w that]) simp
    then show ?thesis using that by (simp add: rxMatch_Lit_step rxMatch_WsStar_end)
  qed
  have "\<not> ciPrefix w t" if "suffix t (replaceAll ?p b s)" for t
    using that
  proof (induction s arbitrary: b rule: length_induct)
    case (1 s)
    show ?case
    proof (cases "rxMatch ?p b s")
      case (Some rest)
      then have lt: "length rest < length s" by (rule prog)
      from "1.prems" consider "t = 32 # replaceAll ?p False rest"
        | "suffix t (replaceAll ?p False rest)"
        unfolding replaceAll_match[OF Some lt] by (auto simp: suffix_Cons)
      then show ?thesis
      proof cases
        case 1
        then show ?thesis using ciPrefix_letter[OF w, of t] by auto
      next
        case 2
        then show ?thesis using "1.IH" lt by blast
      qed
    next
      case None
      show ?thesis
      proof (cases s)
        case Nil
        with None "1.prems" have "t = []" by (simp add: replaceAll_Nil)
        then show ?thesis using ciPrefix_letter[OF w, of t] by auto
      next
        case (Cons c cs)
        from "1.prems" consider "t = replaceAll ?p b s" | "suffix t (replaceAll ?p False cs)"
          using None Cons by (auto simp: replaceAll_nomatch suffix_Cons)
        then show ?thesis
        proof cases
          case 1
          show ?thesis
          proof
            assume "ciPrefix w t"
            then have "ciPrefix w (replaceAll ?p b s)" unfolding 1 .
            then have "ciPrefix w s"
              by (rule replaceAll_prefix_word[where p="?p", rotated 2]) (erule prog, rule letters)
            then show False using at_word None by blast
          qed
        next
          case 2
          moreover have "length cs < length s" using Cons by simp
          ultimately show ?thesis using "1.IH" by blast
        qed
      qed
    qed
  qed
  then show ?thesis by (auto simp: containsPhrase_iff)
qed

lemma replaceAll_no_match_after:
  "rxMatch p b s = None \<Longrightarrow> (\<And>u. suffix u s \<Longrightarrow> u \<noteq> s \<Longrightarrow> rxMatch p False u = None)
     \<Longrightarrow> replaceAll p b s = s"
proof (induction s arbitrary: b)
  case Nil
  then show ?case by (simp add: replaceAll_Nil)
next
  case (Cons c cs)
  have "rxMatch p False cs = None"
    using Cons.prems(2)[of cs] by (simp add: suffix_Cons)
  moreover have "rxMatch p False u = None" if "suffix u cs" "u \<noteq> cs" for u
  proof -
    have "length u \<le> length cs" using that(1) by (rule suffix_length_le)
    then have "u \<noteq> c # cs" by auto
    then show ?thesis using Cons.prems(2)[of u] that(1) by (simp add: suffix_Cons)
  qed
  ultimately have "replaceAll p False cs = cs" by (rule Cons.IH)
  then show ?case using Cons.prems(1) by (simp add: replaceAll_nomatch)
qed

text \<open>The rule for a word at the end of the string.\<close>

lemma suffix_rule_changes:
  assumes w: "isWord w" "2 \<le> length w"
  shows "replaceAll [WsStar, OptHyphen, WsStar, Lit w, WsStar, Eol] b s \<noteq> s
         \<longleftrightarrow> (\<exists>t. suffix t s \<and> ciPrefix w t \<and> list_all isWhiteSpace (drop (length w) t))"
proof -
  let ?p = "[WsStar, OptHyphen, WsStar, Lit w, WsStar, Eol]"
  have core: "rxMatch [Lit w, WsStar, Eol] b' t \<noteq> None
              \<longleftrightarrow> ciPrefix w t \<and> list_all isWhiteSpace (drop (length w) t)" for b' t
    by (simp add: rxMatch_Lit_step rxMatch_WsStar_Eol)
  have prog: "length rest + 2 \<le> length t" if "rxMatch ?p b' t = Some rest" for b' t rest
    using rxMatch_progress[OF that, of w] w(2) by simp
  have nb: "Bol \<notin> set ?p" by simp
  have "replaceAll ?p b s \<noteq> s \<longleftrightarrow> (\<exists>t. suffix t s \<and> rxMatch ?p False t \<noteq> None)"
    by (rule replaceAll_changed_iff) (erule prog, rule nb)
  also have "\<dots> \<longleftrightarrow> (\<exists>t. suffix t s \<and> ciPrefix w t \<and> list_all isWhiteSpace (drop (length w) t))"
  proof
    assume "\<exists>t. suffix t s \<and> rxMatch ?p False t \<noteq> None"
    then obtain t rest where t: "suffix t s" "rxMatch ?p False t = Some rest" by auto
    have "Bol \<notin> set [Lit w, WsStar, Eol]" by simp
    from rxMatch_rule_suffix[OF t(2) this] obtain t' where
      t': "suffix t' t" "rxMatch [Lit w, WsStar, Eol] False t' = Some rest" by blast
    then have "ciPrefix w t' \<and> list_all isWhiteSpace (drop (length w) t')"
      using core[of False t'] by simp
    moreover have "suffix t' s" using t(1) t'(1) suffix_order.trans by blast
    ultimately show "\<exists>t. suffix t s \<and> ciPrefix w t \<and> list_all isWhiteSpace (drop (length w) t)"
      by blast
  next
    assume "\<exists>t. suffix t s \<and> ciPrefix w t \<and> list_all isWhiteSpace (drop (length w) t)"
    then obtain t where t: "suffix t s" "ciPrefix w t" "list_all isWhiteSpace (drop (length w) t)"
      by blast
    have "rxMatch ?p False t = rxMatch [Lit w, WsStar, Eol] False t"
      by (rule rxMatch_rule_at_word[OF w(1) t(2)]) simp
    then have "rxMatch ?p False t \<noteq> None" using core[of False t] t by simp
    with t(1) show "\<exists>t. suffix t s \<and> rxMatch ?p False t \<noteq> None" by blast
  qed
  finally show ?thesis .
qed

text \<open>The rule for a word at the beginning of the string.\<close>

lemma prefix_rule_changes:
  assumes w: "isWord w" "2 \<le> length w"
  shows "replaceAll [Bol, WsStar, Lit w, WsStar, OptHyphen, WsStar] True s \<noteq> s
         \<longleftrightarrow> ciPrefix w (dropWhile isWhiteSpace s)"
proof -
  let ?tail = "[WsStar, OptHyphen, WsStar]"
  let ?p = "[Bol, WsStar, Lit w, WsStar, OptHyphen, WsStar]"
  have tail: "rxMatch ?tail b' t \<noteq> None" for b' t
    by (rule rxMatch_separators) simp
  have "rxMatch ?p True s = rxMatch (WsStar # Lit w # ?tail) True s"
    by (simp add: rxMatch.simps(2))
  also have "\<dots> = rxMatch (Lit w # ?tail) False (dropWhile isWhiteSpace s)"
    by (rule rxMatch_WsStar_Lit[OF w(1)]) simp
  finally have start: "rxMatch ?p True s \<noteq> None \<longleftrightarrow> ciPrefix w (dropWhile isWhiteSpace s)"
    using tail by (simp add: rxMatch_Lit_step)
  have later: "rxMatch ?p False u = None" for u
    by (simp add: rxMatch.simps(2))
  have prog: "length rest + 2 \<le> length t" if "rxMatch ?p b' t = Some rest" for b' t rest
    using rxMatch_progress[OF that, of w] w(2) by simp
  show ?thesis
  proof (cases "rxMatch ?p True s")
    case None
    then have "replaceAll ?p True s = s"
      by (rule replaceAll_no_match_after) (rule later)
    then show ?thesis using None start by simp
  next
    case (Some rest)
    from prog[OF Some] have l: "length rest + 2 \<le> length s" .
    then have lt: "length rest < length s" by simp
    have "length (replaceAll ?p False rest) \<le> length rest"
      by (rule replaceAll_length) (use prog in fastforce)
    then have "length (replaceAll ?p True s) < length s"
      using l by (simp add: replaceAll_match[OF Some lt])
    then show ?thesis using Some start by auto
  qed
qed

lemma removePatterns_nth:
  "removePatterns ! 0 = WsStar # OptHyphen # WsStar # phraseRx [js ''work'', js ''from'', js ''home'']"
  "removePatterns ! 1 = WsStar # OptHyphen # WsStar # phraseRx [js ''wfh'']"
  "removePatterns ! 2 = WsStar # OptHyphen # WsStar # phraseRx [js ''home'', js ''office'']"
  "removePatterns ! 3 = WsStar # OptHyphen # WsStar # phraseRx [js ''office'']"
  "removePatterns ! 4 = [Bol, WsStar, Lit (js ''remote''), WsStar, OptHyphen, WsStar]"
  "removePatterns ! 5 = [WsStar, OptHyphen, WsStar, Lit (js ''remote''), WsStar, Eol]"
  by (simp_all add: removePatterns_def phraseRx_def)

lemma pattern_words:
  "isWord (js ''work'')" "isWord (js ''from'')" "isWord (js ''home'')" "isWord (js ''wfh'')"
  "isWord (js ''office'')" "isWord (js ''remote'')"
  by code_simp+

lemma removePatterns_progress:
  assumes "p \<in> set removePatterns" "rxMatch p b t = Some rest"
  shows "length rest < length t"
proof -
  from assms(1) have "Lit (js ''work'') \<in> set p \<or> Lit (js ''wfh'') \<in> set p
      \<or> Lit (js ''home'') \<in> set p \<or> Lit (js ''office'') \<in> set p
      \<or> Lit (js ''remote'') \<in> set p"
    by (auto simp: removePatterns_def)
  then obtain w where "Lit w \<in> set p" "isWord w" using pattern_words by blast
  then show ?thesis using rxMatch_progress[OF assms(2), of w] isWord_length[of w] by simp
qed

lemma list_ex_suffixes: "list_ex Q (suffixes s) \<longleftrightarrow> (\<exists>t. suffix t s \<and> Q t)"
  by (auto simp: list_ex_iff)

lemma dropWhile_drop_run:
  "k \<le> length (takeWhile P s) \<Longrightarrow> dropWhile P (drop k s) = dropWhile P s"
proof (induction s arbitrary: k)
  case Nil
  then show ?case by simp
next
  case (Cons c cs)
  show ?case
  proof (cases k)
    case 0
    then show ?thesis by simp
  next
    case (Suc j)
    with Cons.prems have "P c" "j \<le> length (takeWhile P cs)" by (auto split: if_splits)
    then show ?thesis using Cons.IH Suc by simp
  qed
qed

lemma firstSome_first:
  "(x = None \<Longrightarrow> \<forall>y\<in>set xs. y = None) \<Longrightarrow> firstSome (x # xs) = x"
  by (cases x) (simp_all add: firstSome_None)

lemma dropWhile_not_space: "dropWhile isWhiteSpace s = c # cs \<Longrightarrow> \<not> isWhiteSpace c"
  using hd_dropWhile[of isWhiteSpace s] by auto

lemma dropWhile_fixed: "dropWhile isWhiteSpace s = t \<Longrightarrow> dropWhile isWhiteSpace t = t"
  by (auto simp: dropWhile_idem)

text \<open>The optional hyphen and the white space after it, before a word.\<close>

lemma rxMatch_OptHyphen_word:
  assumes w: "isWord w" and nb: "Bol \<notin> set r"
  shows "rxMatch (OptHyphen # WsStar # Lit w # r) b t
         = rxMatch (Lit w # r) False
             (case t of [] \<Rightarrow> [] | c # cs \<Rightarrow> if c = 45 then dropWhile isWhiteSpace cs
                                            else dropWhile isWhiteSpace t)"
proof (cases t)
  case Nil
  then show ?thesis
    using rxMatch_WsStar_Lit[OF w nb, of b "[]"] by (simp add: rxMatch.simps(5))
next
  case (Cons c cs)
  show ?thesis
  proof (cases "c = 45")
    case False
    then show ?thesis
      using rxMatch_WsStar_Lit[OF w nb, of b t] Cons by (simp add: rxMatch.simps(5))
  next
    case True
    have "\<not> ciPrefix w t" using ciPrefix_letter[OF w, of t] Cons True by auto
    moreover have "dropWhile isWhiteSpace t = t"
      using Cons True by (simp add: isWhiteSpace_def)
    ultimately have "rxMatch (WsStar # Lit w # r) b t = None"
      using rxMatch_WsStar_Lit[OF w nb, of b t] by (simp add: rxMatch_Lit_step)
    then show ?thesis
      using rxMatch_WsStar_Lit[OF w nb, of False cs] Cons True
      by (simp add: rxMatch.simps(5) split: option.splits)
  qed
qed

text \<open>
  The beginning of the first four rules and of the last: white space, an optional hyphen,
  white space, before a word. Giving back white space never helps.
\<close>

lemma skipSeparator_cases:
  obtains (blank) "dropWhile isWhiteSpace s = []" "skipSeparator s = []"
  | (hyphen) cs where "dropWhile isWhiteSpace s = 45 # cs"
      "skipSeparator s = dropWhile isWhiteSpace cs"
  | (other) c cs where "dropWhile isWhiteSpace s = c # cs" "c \<noteq> 45" "\<not> isWhiteSpace c"
      "skipSeparator s = c # cs"
proof (cases "dropWhile isWhiteSpace s")
  case Nil
  then show ?thesis using blank by (simp add: skipSeparator_def del: dropWhile_eq_Nil_conv)
next
  case (Cons c cs)
  show ?thesis
  proof (cases "c = 45")
    case True
    then show ?thesis using hyphen Cons by (simp add: skipSeparator_def)
  next
    case False
    then show ?thesis using other Cons dropWhile_not_space[OF Cons] by (simp add: skipSeparator_def)
  qed
qed

lemma rxMatch_separator_word:
  assumes w: "isWord w" and nb: "Bol \<notin> set r"
  shows "rxMatch (WsStar # OptHyphen # WsStar # Lit w # r) b s
         = rxMatch (Lit w # r) False (skipSeparator s)"
proof -
  let ?X = "rxMatch (Lit w # r) False"
  let ?n = "length (takeWhile isWhiteSpace s)"
  let ?h = "\<lambda>t. case t of [] \<Rightarrow> [] | c # cs \<Rightarrow> if c = 45 then dropWhile isWhiteSpace cs
                                            else dropWhile isWhiteSpace t"
  let ?f = "\<lambda>k. rxMatch (OptHyphen # WsStar # Lit w # r) (b \<and> k = 0) (drop k s)"
  define s1 where "s1 = dropWhile isWhiteSpace s"
  have f: "?f k = ?X (?h (drop k s))" for k
    by (rule rxMatch_OptHyphen_word[OF w nb])
  have dn: "drop ?n s = s1" by (simp add: dropWhile_eq_drop s1_def)
  have head: "?h s1 = skipSeparator s"
  proof (cases rule: skipSeparator_cases[of s])
    case blank
    then show ?thesis by (simp add: s1_def del: dropWhile_eq_Nil_conv)
  next
    case (hyphen cs)
    then show ?thesis by (simp add: s1_def)
  next
    case (other c cs)
    then show ?thesis by (simp add: s1_def)
  qed
  have fn: "?f ?n = ?X (skipSeparator s)" using f[of ?n] by (simp only: dn head)
  have early: "?f k = ?X s1" if "k < ?n" for k
  proof -
    from drop_takeWhile_hd[OF that] obtain c cs where
      d: "drop k s = c # cs" "isWhiteSpace c" by (cases "drop k s") auto
    then have "c \<noteq> 45" by (auto simp: isWhiteSpace_def)
    moreover have "dropWhile isWhiteSpace (drop k s) = s1"
      unfolding s1_def using that by (intro dropWhile_drop_run) simp
    ultimately show ?thesis unfolding f using d by simp
  qed
  have none: "\<forall>y\<in>set (map ?f (rev [0..<?n])). y = None" if "?f ?n = None"
  proof -
    have x: "?X (skipSeparator s) = None" using that unfolding fn .
    have "?X s1 = None"
    proof (cases rule: skipSeparator_cases[of s])
      case blank
      then show ?thesis using x by (simp add: s1_def del: dropWhile_eq_Nil_conv)
    next
      case (hyphen cs)
      then have "\<not> ciPrefix w s1" using ciPrefix_letter[OF w, of s1] by (auto simp: s1_def)
      then show ?thesis by (simp add: rxMatch_Lit_step)
    next
      case (other c cs)
      then show ?thesis using x by (simp add: s1_def)
    qed
    then show ?thesis using early by auto
  qed
  have "rxMatch (WsStar # OptHyphen # WsStar # Lit w # r) b s
        = firstSome (?f ?n # map ?f (rev [0..<?n]))"
    by (simp add: rxMatch.simps(6))
  also have "\<dots> = ?f ?n" by (rule firstSome_first) (rule none)
  finally show ?thesis unfolding fn .
qed

lemma rxMatch_separator_only: "rxMatch [WsStar, OptHyphen, WsStar] b t = Some (skipSeparator t)"
proof -
  let ?n = "length (takeWhile isWhiteSpace t)"
  let ?f = "\<lambda>k. rxMatch [OptHyphen, WsStar] (b \<and> k = 0) (drop k t)"
  define s1 where "s1 = dropWhile isWhiteSpace t"
  have dn: "drop ?n t = s1" by (simp add: dropWhile_eq_drop s1_def)
  have "rxMatch [OptHyphen, WsStar] b' s1 = Some (skipSeparator t)" for b'
  proof (cases rule: skipSeparator_cases[of t])
    case blank
    then show ?thesis
      by (simp add: s1_def rxMatch.simps(5) rxMatch_WsStar_end del: dropWhile_eq_Nil_conv)
  next
    case (hyphen cs)
    then show ?thesis by (simp add: s1_def rxMatch.simps(5) rxMatch_WsStar_end)
  next
    case (other c cs)
    then show ?thesis by (simp add: s1_def rxMatch.simps(5) rxMatch_WsStar_end)
  qed
  then have "?f ?n = Some (skipSeparator t)" unfolding dn .
  moreover have "rxMatch [WsStar, OptHyphen, WsStar] b t = firstSome (?f ?n # map ?f (rev [0..<?n]))"
    by (simp add: rxMatch.simps(6))
  ultimately show ?thesis by simp
qed

lemma phraseRx_exact:
  "list_all isWord ws \<Longrightarrow>
   rxMatch (phraseRx ws) b t = (if phraseAt ws t then Some (afterPhrase ws t) else None)"
proof (induction ws t arbitrary: b rule: phraseAt.induct)
  case (1 s)
  then show ?case by (simp add: phraseRx_simps rxMatch.simps(1))
next
  case (2 w s)
  then show ?case
    by (simp add: phraseRx_simps rxMatch_Lit_step rxMatch_WsStar_end rxMatch.simps(1))
next
  case (3 w v ws s)
  have v: "isWord v" and vs: "list_all isWord (v # ws)" using "3.prems" by simp_all
  have nb: "Bol \<notin> set (WsStar # phraseRx ws)" using phraseRx_noBol by simp
  have "rxMatch (phraseRx (w # v # ws)) b s
        = (if ciPrefix w s
           then rxMatch (WsStar # Lit v # WsStar # phraseRx ws) (b \<and> w = []) (drop (length w) s)
           else None)"
    by (simp add: phraseRx_simps rxMatch_Lit_step)
  also have "\<dots> = (if ciPrefix w s
           then rxMatch (phraseRx (v # ws)) False (dropWhile isWhiteSpace (drop (length w) s))
           else None)"
    by (simp only: rxMatch_WsStar_Lit[OF v nb] phraseRx_simps)
  also have "\<dots> = (if phraseAt (w # v # ws) s then Some (afterPhrase (w # v # ws) s) else None)"
    using "3.IH"[OF vs, of False] by simp
  finally show ?case .
qed


text \<open>Each rule of the list matches what its description says.\<close>

lemma phrase_rule_exact:
  assumes "list_all isWord (w # ws)"
  shows "rxMatch (WsStar # OptHyphen # WsStar # phraseRx (w # ws)) b s = phraseMatch (w # ws) s"
proof -
  have w: "isWord w" using assms by simp
  have nb: "Bol \<notin> set (WsStar # phraseRx ws)" using phraseRx_noBol by simp
  have "rxMatch (WsStar # OptHyphen # WsStar # phraseRx (w # ws)) b s
        = rxMatch (phraseRx (w # ws)) False (skipSeparator s)"
    unfolding phraseRx_simps by (rule rxMatch_separator_word[OF w nb])
  also have "\<dots> = phraseMatch (w # ws) s"
    unfolding phraseMatch_def Let_def by (rule phraseRx_exact[OF assms])
  finally show ?thesis .
qed

lemma leading_rule_exact:
  assumes w: "isWord w"
  shows "rxMatch [Bol, WsStar, Lit w, WsStar, OptHyphen, WsStar] b s = leadingMatch w b s"
proof (cases b)
  case False
  then show ?thesis by (simp add: rxMatch.simps(2) leadingMatch_def)
next
  case True
  have nb: "Bol \<notin> set [WsStar, OptHyphen, WsStar]" by simp
  have "rxMatch [Bol, WsStar, Lit w, WsStar, OptHyphen, WsStar] b s
        = rxMatch [WsStar, Lit w, WsStar, OptHyphen, WsStar] b s"
    using True by (simp add: rxMatch.simps(2))
  also have "\<dots> = rxMatch [Lit w, WsStar, OptHyphen, WsStar] False (dropWhile isWhiteSpace s)"
    by (rule rxMatch_WsStar_Lit[OF w nb])
  also have "\<dots> = leadingMatch w b s"
    using True by (simp add: rxMatch_Lit_step rxMatch_separator_only leadingMatch_def)
  finally show ?thesis .
qed

lemma trailing_rule_exact:
  assumes w: "isWord w"
  shows "rxMatch [WsStar, OptHyphen, WsStar, Lit w, WsStar, Eol] b s = trailingMatch w s"
proof -
  have nb: "Bol \<notin> set [WsStar, Eol]" by simp
  have "rxMatch [WsStar, OptHyphen, WsStar, Lit w, WsStar, Eol] b s
        = rxMatch [Lit w, WsStar, Eol] False (skipSeparator s)"
    by (rule rxMatch_separator_word[OF w nb])
  also have "\<dots> = trailingMatch w s"
    by (simp add: rxMatch_Lit_step rxMatch_WsStar_Eol trailingMatch_def)
  finally show ?thesis .
qed

text \<open>The text before the first match is kept, character by character.\<close>

lemma replaceAll_gap:
  "(\<forall>k<length g. rxMatch p (b \<and> k = 0) (drop k (g @ t)) = None)
     \<Longrightarrow> replaceAll p b (g @ t) = g @ replaceAll p (b \<and> g = []) t"
proof (induction g arbitrary: b)
  case Nil
  then show ?case by simp
next
  case (Cons c g)
  have "rxMatch p b (c # g @ t) = None" using Cons.prems[rule_format, of 0] by simp
  then have "replaceAll p b ((c # g) @ t) = c # replaceAll p False (g @ t)"
    by (simp add: replaceAll_nomatch)
  moreover have "\<forall>k<length g. rxMatch p (False \<and> k = 0) (drop k (g @ t)) = None"
  proof (intro allI impI)
    fix k assume "k < length g"
    then show "rxMatch p (False \<and> k = 0) (drop k (g @ t)) = None"
      using Cons.prems[rule_format, of "Suc k"] by simp
  qed
  ultimately show ?case using Cons.IH[of False] by simp
qed

lemma removePatterns_empty:
  assumes "p \<in> set removePatterns"
  shows "replaceAll p b [] = []"
proof -
  have "rxMatch p b [] = None"
  proof (cases "rxMatch p b []")
    case (Some rest)
    then show ?thesis using removePatterns_progress[OF assms Some] by simp
  qed simp
  then show ?thesis by (rule replaceAll_Nil)
qed

text \<open>
  C6, as the code has it. The rules are applied to the trimmed input in the order of the
  list, and each match is replaced by one space. A rule looks for its phrase wherever it
  stands, also inside a longer word: the rules for \<^verbatim>\<open>work from home\<close>, \<^verbatim>\<open>wfh\<close>,
  \<^verbatim>\<open>home office\<close> and \<^verbatim>\<open>office\<close> change a string exactly when it contains the phrase, in
  either case, its words separated by any white space or none; after the rules for
  \<^verbatim>\<open>wfh\<close> and \<^verbatim>\<open>office\<close> the word stands nowhere in the string. The fifth rule changes a
  string exactly when it begins, after white space, with \<^verbatim>\<open>remote\<close>, and the sixth
  exactly when \<^verbatim>\<open>remote\<close> stands at its end, before white space only. A replacement
  brings in no character but the space and never makes the string longer.

  What a rule matches at a position, and what a replacement puts out, is fixed exactly.
  The first four rules match white space, an optional hyphen, white space, the words of
  the phrase with any white space or none between them, and the white space after the
  last word (\<open>phraseMatch\<close>); the fifth matches, at the start of the string only, white
  space, \<^verbatim>\<open>remote\<close>, white space, an optional hyphen and white space (\<open>leadingMatch\<close>); the
  sixth matches white space, an optional hyphen, white space and \<^verbatim>\<open>remote\<close> when only
  white space follows up to the end (\<open>trailingMatch\<close>). A replacement reads the string
  from left to right: where the rule matches, the match is not empty, it becomes one
  space, and the reading goes on with what follows the match; the characters before the
  first position at which the rule matches are kept as they are; the empty string stays
  empty. So every match becomes one space and the text outside the matches is kept.
\<close>

theorem removePatterns_effect:
  "stripQualifiers s =
     trim (collapseWhiteSpace
       (replaceAll (removePatterns ! 5) True (replaceAll (removePatterns ! 4) True
       (replaceAll (removePatterns ! 3) True (replaceAll (removePatterns ! 2) True
       (replaceAll (removePatterns ! 1) True (replaceAll (removePatterns ! 0) True (trim s))))))))
   \<and> (replaceAll (removePatterns ! 0) b s \<noteq> s
        \<longleftrightarrow> containsPhrase [js ''work'', js ''from'', js ''home''] s)
   \<and> (replaceAll (removePatterns ! 1) b s \<noteq> s \<longleftrightarrow> containsPhrase [js ''wfh''] s)
   \<and> (replaceAll (removePatterns ! 2) b s \<noteq> s \<longleftrightarrow> containsPhrase [js ''home'', js ''office''] s)
   \<and> (replaceAll (removePatterns ! 3) b s \<noteq> s \<longleftrightarrow> containsPhrase [js ''office''] s)
   \<and> (replaceAll (removePatterns ! 4) True s \<noteq> s
        \<longleftrightarrow> phraseAt [js ''remote''] (dropWhile isWhiteSpace s))
   \<and> (replaceAll (removePatterns ! 5) b s \<noteq> s
        \<longleftrightarrow> list_ex (\<lambda>t. phraseAt [js ''remote''] t \<and> list_all isWhiteSpace (drop 6 t))
              (suffixes s))
   \<and> \<not> containsPhrase [js ''wfh''] (replaceAll (removePatterns ! 1) b s)
   \<and> \<not> containsPhrase [js ''office''] (replaceAll (removePatterns ! 3) b s)
   \<and> (\<forall>p\<in>set removePatterns.
         set (replaceAll p b s) \<subseteq> set s \<union> {32} \<and> length (replaceAll p b s) \<le> length s)
   \<and> rxMatch (removePatterns ! 0) b s = phraseMatch [js ''work'', js ''from'', js ''home''] s
   \<and> rxMatch (removePatterns ! 1) b s = phraseMatch [js ''wfh''] s
   \<and> rxMatch (removePatterns ! 2) b s = phraseMatch [js ''home'', js ''office''] s
   \<and> rxMatch (removePatterns ! 3) b s = phraseMatch [js ''office''] s
   \<and> rxMatch (removePatterns ! 4) b s = leadingMatch (js ''remote'') b s
   \<and> rxMatch (removePatterns ! 5) b s = trailingMatch (js ''remote'') s
   \<and> (\<forall>p\<in>set removePatterns.
         (\<forall>rest. rxMatch p b s = Some rest
            \<longrightarrow> length rest < length s \<and> replaceAll p b s = 32 # replaceAll p False rest)
         \<and> (\<forall>g t. s = g @ t \<and> (\<forall>k<length g. rxMatch p (b \<and> k = 0) (drop k s) = None)
            \<longrightarrow> replaceAll p b s = g @ replaceAll p (b \<and> g = []) t)
         \<and> replaceAll p b [] = [])"
proof (intro conjI ballI)
  show "stripQualifiers s =
     trim (collapseWhiteSpace
       (replaceAll (removePatterns ! 5) True (replaceAll (removePatterns ! 4) True
       (replaceAll (removePatterns ! 3) True (replaceAll (removePatterns ! 2) True
       (replaceAll (removePatterns ! 1) True (replaceAll (removePatterns ! 0) True (trim s))))))))"
    by (simp add: stripQualifiers_def removePatterns_def)
  have two: "2 \<le> length (js ''work'')" "2 \<le> length (js ''wfh'')" "2 \<le> length (js ''home'')"
    "2 \<le> length (js ''office'')" "2 \<le> length (js ''remote'')" "length (js ''remote'') = 6"
    by (simp_all add: js_def)
  show "replaceAll (removePatterns ! 0) b s \<noteq> s
        \<longleftrightarrow> containsPhrase [js ''work'', js ''from'', js ''home''] s"
    unfolding removePatterns_nth
    by (rule phrase_rule_changes) (simp_all add: pattern_words two)
  show "replaceAll (removePatterns ! 1) b s \<noteq> s \<longleftrightarrow> containsPhrase [js ''wfh''] s"
    unfolding removePatterns_nth
    by (rule phrase_rule_changes) (simp_all add: pattern_words two)
  show "replaceAll (removePatterns ! 2) b s \<noteq> s \<longleftrightarrow> containsPhrase [js ''home'', js ''office''] s"
    unfolding removePatterns_nth
    by (rule phrase_rule_changes) (simp_all add: pattern_words two)
  show "replaceAll (removePatterns ! 3) b s \<noteq> s \<longleftrightarrow> containsPhrase [js ''office''] s"
    unfolding removePatterns_nth
    by (rule phrase_rule_changes) (simp_all add: pattern_words two)
  show "replaceAll (removePatterns ! 4) True s \<noteq> s
        \<longleftrightarrow> phraseAt [js ''remote''] (dropWhile isWhiteSpace s)"
    unfolding removePatterns_nth
    using prefix_rule_changes[OF pattern_words(6) two(5), of s] by simp
  show "replaceAll (removePatterns ! 5) b s \<noteq> s
        \<longleftrightarrow> list_ex (\<lambda>t. phraseAt [js ''remote''] t \<and> list_all isWhiteSpace (drop 6 t))
              (suffixes s)"
  proof -
    have "replaceAll (removePatterns ! 5) b s \<noteq> s
        \<longleftrightarrow> (\<exists>t. suffix t s \<and> ciPrefix (js ''remote'') t
                \<and> list_all isWhiteSpace (drop (length (js ''remote'')) t))"
      unfolding removePatterns_nth by (rule suffix_rule_changes[OF pattern_words(6) two(5)])
    then show ?thesis
      by (simp only: list_ex_suffixes phraseAt.simps two(6))
  qed
  show "\<not> containsPhrase [js ''wfh''] (replaceAll (removePatterns ! 1) b s)"
    unfolding removePatterns_nth
    using word_rule_removes[OF pattern_words(4), of b s] by (simp add: phraseRx_def)
  show "\<not> containsPhrase [js ''office''] (replaceAll (removePatterns ! 3) b s)"
    unfolding removePatterns_nth
    using word_rule_removes[OF pattern_words(5), of b s] by (simp add: phraseRx_def)
  show "rxMatch (removePatterns ! 0) b s = phraseMatch [js ''work'', js ''from'', js ''home''] s"
    unfolding removePatterns_nth by (rule phrase_rule_exact) (simp add: pattern_words)
  show "rxMatch (removePatterns ! 1) b s = phraseMatch [js ''wfh''] s"
    unfolding removePatterns_nth by (rule phrase_rule_exact) (simp add: pattern_words)
  show "rxMatch (removePatterns ! 2) b s = phraseMatch [js ''home'', js ''office''] s"
    unfolding removePatterns_nth by (rule phrase_rule_exact) (simp add: pattern_words)
  show "rxMatch (removePatterns ! 3) b s = phraseMatch [js ''office''] s"
    unfolding removePatterns_nth by (rule phrase_rule_exact) (simp add: pattern_words)
  show "rxMatch (removePatterns ! 4) b s = leadingMatch (js ''remote'') b s"
    unfolding removePatterns_nth by (rule leading_rule_exact) (rule pattern_words)
  show "rxMatch (removePatterns ! 5) b s = trailingMatch (js ''remote'') s"
    unfolding removePatterns_nth by (rule trailing_rule_exact) (rule pattern_words)
next
  fix p assume p: "p \<in> set removePatterns"
  show "set (replaceAll p b s) \<subseteq> set s \<union> {32}"
    by (rule replaceAll_set) (rule removePatterns_progress[OF p])
  show "length (replaceAll p b s) \<le> length s"
    by (rule replaceAll_length) (rule removePatterns_progress[OF p])
next
  fix p assume p: "p \<in> set removePatterns"
  show "\<forall>rest. rxMatch p b s = Some rest
          \<longrightarrow> length rest < length s \<and> replaceAll p b s = 32 # replaceAll p False rest"
  proof (intro allI impI conjI)
    fix rest assume m: "rxMatch p b s = Some rest"
    show "length rest < length s" by (rule removePatterns_progress[OF p m])
    then show "replaceAll p b s = 32 # replaceAll p False rest" by (rule replaceAll_match[OF m])
  qed
  show "\<forall>g t. s = g @ t \<and> (\<forall>k<length g. rxMatch p (b \<and> k = 0) (drop k s) = None)
          \<longrightarrow> replaceAll p b s = g @ replaceAll p (b \<and> g = []) t"
  proof (intro allI impI)
    fix g t
    assume a: "s = g @ t \<and> (\<forall>k<length g. rxMatch p (b \<and> k = 0) (drop k s) = None)"
    then have "\<forall>k<length g. rxMatch p (b \<and> k = 0) (drop k (g @ t)) = None" by blast
    then have "replaceAll p b (g @ t) = g @ replaceAll p (b \<and> g = []) t" by (rule replaceAll_gap)
    then show "replaceAll p b s = g @ replaceAll p (b \<and> g = []) t" using a by blast
  qed
  show "replaceAll p b [] = []" by (rule removePatterns_empty[OF p])
qed

theorem removePatterns_effect_witness:
  "removePatterns ! 3 \<in> set removePatterns
   \<and> containsPhrase [js ''office''] (js ''Post Officer'')
   \<and> replaceAll (removePatterns ! 3) True (js ''Post Officer'') \<noteq> js ''Post Officer''
   \<and> \<not> containsPhrase [js ''office''] (replaceAll (removePatterns ! 3) True (js ''Post Officer''))
   \<and> length (replaceAll (removePatterns ! 3) True (js ''Post Officer'')) \<le> length (js ''Post Officer'')
   \<and> \<not> containsPhrase [js ''wfh''] (js ''Post Officer'')
   \<and> replaceAll (removePatterns ! 1) True (js ''Post Officer'') = js ''Post Officer''
   \<and> rxMatch (removePatterns ! 3) False (js '' Office, Texas'') = Some (js '', Texas'')
   \<and> replaceAll (removePatterns ! 3) True (js ''Head Office, Texas'') = js ''Head , Texas''"
proof -
  let ?p = "removePatterns ! 3"
  have m: "?p \<in> set removePatterns" by (simp add: removePatterns_def)
  have c: "containsPhrase [js ''office''] (js ''Post Officer'')
           \<and> \<not> containsPhrase [js ''wfh''] (js ''Post Officer'')"
    by code_simp
  note t = removePatterns_effect[of "js ''Post Officer''" True]
  have 1: "replaceAll ?p True (js ''Post Officer'') \<noteq> js ''Post Officer''"
    using t c by blast
  have 2: "\<not> containsPhrase [js ''office''] (replaceAll ?p True (js ''Post Officer''))"
    using t by blast
  have 3: "length (replaceAll ?p True (js ''Post Officer''))
           \<le> length (js ''Post Officer'')"
    using t m by blast
  have 4: "replaceAll (removePatterns ! 1) True (js ''Post Officer'') = js ''Post Officer''"
    using t c by blast
  note h = removePatterns_effect[of "js ''Head Office, Texas''" True]
  note o = removePatterns_effect[of "js '' Office, Texas''" False]
  note x = removePatterns_effect[of "js '', Texas''" False]
  have ph: "phraseMatch [js ''office''] (js '' Office, Texas'') = Some (js '', Texas'')"
    by code_simp
  have 5: "rxMatch ?p False (js '' Office, Texas'') = Some (js '', Texas'')"
    using o ph by simp
  have gh: "\<forall>k<length (js ''Head'').
              rxMatch ?p (True \<and> k = 0) (drop k (js ''Head Office, Texas'')) = None"
  proof -
    have "list_all (\<lambda>k. rxMatch ?p (True \<and> k = 0) (drop k (js ''Head Office, Texas'')) = None)
            [0..<length (js ''Head'')]"
      by code_simp
    then show ?thesis by (simp add: list_all_iff)
  qed
  have gx: "\<forall>k<length (js '', Texas'').
              rxMatch ?p (False \<and> k = 0) (drop k (js '', Texas'')) = None"
  proof -
    have "list_all (\<lambda>k. rxMatch ?p (False \<and> k = 0) (drop k (js '', Texas'')) = None)
            [0..<length (js '', Texas'')]"
      by code_simp
    then show ?thesis by (simp add: list_all_iff)
  qed
  have eh: "js ''Head Office, Texas'' = js ''Head'' @ js '' Office, Texas''"
    by (simp add: js_def)
  have ex: "js '', Texas'' = js '', Texas'' @ []" by simp
  have ne: "js ''Head'' \<noteq> []" "js '', Texas'' \<noteq> []" by (simp_all add: js_def)
  have "replaceAll ?p True (js ''Head Office, Texas'')
          = js ''Head'' @ replaceAll ?p (True \<and> js ''Head'' = []) (js '' Office, Texas'')"
    by (rule bspec[OF h[THEN conjunct2, THEN conjunct2, THEN conjunct2, THEN conjunct2, THEN conjunct2, THEN conjunct2, THEN conjunct2, THEN conjunct2, THEN conjunct2, THEN conjunct2, THEN conjunct2, THEN conjunct2, THEN conjunct2, THEN conjunct2, THEN conjunct2, THEN conjunct2] m, THEN conjunct2, THEN conjunct1, rule_format,
                   OF conjI[OF eh gh]])
  then have a: "replaceAll ?p True (js ''Head Office, Texas'')
           = js ''Head'' @ replaceAll ?p False (js '' Office, Texas'')"
    using ne by simp
  have b: "replaceAll ?p False (js '' Office, Texas'') = 32 # replaceAll ?p False (js '', Texas'')"
    using o m 5 by blast
  have "replaceAll ?p False (js '', Texas'')
          = js '', Texas'' @ replaceAll ?p (False \<and> js '', Texas'' = []) []"
    by (rule bspec[OF x[THEN conjunct2, THEN conjunct2, THEN conjunct2, THEN conjunct2, THEN conjunct2, THEN conjunct2, THEN conjunct2, THEN conjunct2, THEN conjunct2, THEN conjunct2, THEN conjunct2, THEN conjunct2, THEN conjunct2, THEN conjunct2, THEN conjunct2, THEN conjunct2] m, THEN conjunct2, THEN conjunct1, rule_format,
                   OF conjI[OF ex gx]])
  then have d: "replaceAll ?p False (js '', Texas'') = js '', Texas'' @ replaceAll ?p False []"
    by simp
  have e: "replaceAll ?p False [] = []" using x m by blast
  have 6: "replaceAll ?p True (js ''Head Office, Texas'') = js ''Head , Texas''"
    unfolding a b d e by (simp add: js_def)
  show ?thesis using m c 1 2 3 4 5 6 by blast
qed

text \<open>
  \<^verbatim>\<open>"Officer"\<close> holds \<^verbatim>\<open>office\<close> only as a part of a longer word, and it is not left
  intact: the fourth rule turns it into a space and \<^verbatim>\<open>r\<close>, and the parser returns the
  token \<^verbatim>\<open>r\<close>. In the same way \<^verbatim>\<open>"Remotely"\<close> loses its leading \<^verbatim>\<open>Remote\<close>.
\<close>

theorem removePatterns_inside_word_counterexample:
  "replaceAll (removePatterns ! 3) True (js ''Officer'') = js '' r''
   \<and> parseLocation (js ''Officer'') = Some \<lparr> original = js ''Officer'', parts = [js ''r''] \<rparr>
   \<and> parseLocation (js ''Post Officer, UK'')
       = Some \<lparr> original = js ''Post Officer, UK'', parts = [js ''Post r'', js ''UK''] \<rparr>
   \<and> parseLocation (js ''Remotely'') = Some \<lparr> original = js ''Remotely'', parts = [js ''ly''] \<rparr>"
  by code_simp

end
